theory Spec2Isabelle
  imports Complex_Main "HOL-Library.Multiset"
begin

section \<open>Numbers\<close>

text \<open>
  A JavaScript number is a finite value, one of the two infinities, or NaN. Finite
  values are idealised as reals: rounding and overflow of IEEE doubles are not modelled.
  \<open>NaN\<close> also stands for a value that is no number at all (\<^verbatim>\<open>undefined\<close>, a
  non-numeric string): the arithmetic of the source coerces such a value to NaN before it
  uses it.
\<close>

datatype jsnum = Num real | PosInf | NegInf | NaN

fun js_sub :: "jsnum \<Rightarrow> jsnum \<Rightarrow> jsnum" where
  "js_sub (Num a) (Num b) = Num (a - b)"
| "js_sub NaN _ = NaN"
| "js_sub _ NaN = NaN"
| "js_sub PosInf PosInf = NaN"
| "js_sub NegInf NegInf = NaN"
| "js_sub PosInf _ = PosInf"
| "js_sub NegInf _ = NegInf"
| "js_sub (Num a) PosInf = NegInf"
| "js_sub (Num a) NegInf = PosInf"

fun js_add :: "jsnum \<Rightarrow> jsnum \<Rightarrow> jsnum" where
  "js_add (Num a) (Num b) = Num (a + b)"
| "js_add NaN _ = NaN"
| "js_add _ NaN = NaN"
| "js_add PosInf NegInf = NaN"
| "js_add NegInf PosInf = NaN"
| "js_add PosInf _ = PosInf"
| "js_add NegInf _ = NegInf"
| "js_add (Num a) PosInf = PosInf"
| "js_add (Num a) NegInf = NegInf"

text \<open>\<^verbatim>\<open>Math.pow(v, 2)\<close>\<close>

fun js_pow2 :: "jsnum \<Rightarrow> jsnum" where
  "js_pow2 (Num a) = Num (a ^ 2)"
| "js_pow2 PosInf = PosInf"
| "js_pow2 NegInf = PosInf"
| "js_pow2 NaN = NaN"

text \<open>\<^verbatim>\<open>Math.sqrt(v)\<close>\<close>

fun js_sqrt :: "jsnum \<Rightarrow> jsnum" where
  "js_sqrt (Num a) = (if a < 0 then NaN else Num (sqrt a))"
| "js_sqrt PosInf = PosInf"
| "js_sqrt NegInf = NaN"
| "js_sqrt NaN = NaN"

text \<open>\<^verbatim>\<open>v / n\<close> for an array length \<open>n\<close>; the source divides by a length only when it is not zero.\<close>

fun js_div_len :: "jsnum \<Rightarrow> nat \<Rightarrow> jsnum" where
  "js_div_len (Num a) n = (if n = 0 then (if a = 0 then NaN else if 0 < a then PosInf else NegInf)
                           else Num (a / real n))"
| "js_div_len PosInf n = PosInf"
| "js_div_len NegInf n = NegInf"
| "js_div_len NaN n = NaN"

text \<open>\<^verbatim>\<open>a < b\<close>: every comparison with NaN is false.\<close>

fun js_lt :: "jsnum \<Rightarrow> jsnum \<Rightarrow> bool" where
  "js_lt (Num a) (Num b) = (a < b)"
| "js_lt NaN _ = False"
| "js_lt _ NaN = False"
| "js_lt _ NegInf = False"
| "js_lt PosInf _ = False"
| "js_lt NegInf _ = True"
| "js_lt (Num a) PosInf = True"

section \<open>Data model\<close>

record point =
  px :: jsnum
  py :: jsnum

text \<open>A treasure (waypoint): an opaque identifier, the map it lies on, and its coordinates.\<close>

record waypoint =
  wid :: nat
  mapId :: int
  coords :: point




text \<open>The object literal of a treasure with finite coordinates.\<close>

definition mkTreasure :: "nat \<Rightarrow> int \<Rightarrow> real \<Rightarrow> real \<Rightarrow> waypoint" where
  "mkTreasure i m a b = \<lparr>wid = i, mapId = m, coords = \<lparr>px = Num a, py = Num b\<rparr>\<rparr>"

text \<open>The result of \<^verbatim>\<open>analyzeRoute\<close>.\<close>

record analysis =
  totalDistance :: jsnum
  mapCount :: nat
  mapJumps :: nat

section \<open>Distances\<close>

definition calcDistance :: "point \<Rightarrow> point \<Rightarrow> jsnum" where
  "calcDistance p1 p2 =
     js_sqrt (js_add (js_pow2 (js_sub (px p1) (px p2))) (js_pow2 (js_sub (py p1) (py p2))))"

text \<open>The loop of \<^verbatim>\<open>calcTotalDistance\<close>: \<open>i\<close> runs while \<open>i < length - 1\<close>.\<close>

function calcTotalDistance_loop :: "waypoint list \<Rightarrow> nat \<Rightarrow> jsnum \<Rightarrow> jsnum" where
  "calcTotalDistance_loop treasures i tot =
     (if i + 1 < length treasures
      then calcTotalDistance_loop treasures (i + 1)
             (js_add tot (calcDistance (coords (treasures ! i)) (coords (treasures ! (i + 1)))))
      else tot)"
  by pat_completeness auto
termination
  by (relation "measure (\<lambda>(treasures, i, tot). length treasures - i)") auto

declare calcTotalDistance_loop.simps [simp del]

definition calcTotalDistance :: "waypoint list \<Rightarrow> jsnum" where
  "calcTotalDistance treasures =
     (if length treasures \<le> 1 then Num 0 else calcTotalDistance_loop treasures 0 (Num 0))"

section \<open>Route analysis\<close>

text \<open>The loop of \<^verbatim>\<open>analyzeRoute\<close>: \<open>i\<close> starts at 1 and compares element \<open>i\<close> with its predecessor.\<close>

function analyzeRoute_loop :: "waypoint list \<Rightarrow> nat \<Rightarrow> nat \<Rightarrow> nat" where
  "analyzeRoute_loop treasures i jumps =
     (if i < length treasures
      then analyzeRoute_loop treasures (i + 1)
             (if mapId (treasures ! i) \<noteq> mapId (treasures ! (i - 1)) then jumps + 1 else jumps)
      else jumps)"
  by pat_completeness auto
termination
  by (relation "measure (\<lambda>(treasures, i, jumps). length treasures - i)") auto

declare analyzeRoute_loop.simps [simp del]

text \<open>
  The argument is \<open>None\<close> for an absent list (\<^verbatim>\<open>null\<close>, \<^verbatim>\<open>undefined\<close>): the guard
  \<^verbatim>\<open>!treasures || treasures.length === 0\<close> treats it like the empty list.
\<close>

definition analyzeRoute :: "waypoint list option \<Rightarrow> analysis" where
  "analyzeRoute treasures =
     (case treasures of
        None \<Rightarrow> \<lparr>totalDistance = Num 0, mapCount = 0, mapJumps = 0\<rparr>
      | Some ts \<Rightarrow>
          if length ts = 0 then \<lparr>totalDistance = Num 0, mapCount = 0, mapJumps = 0\<rparr>
          else \<lparr>totalDistance = calcTotalDistance ts,
                mapCount = card (set (map mapId ts)),
                mapJumps = analyzeRoute_loop ts 1 0\<rparr>)"

section \<open>Grouping by map\<close>

text \<open>
  The object built by \<^verbatim>\<open>groupByMap\<close> is an association list in the order in which the
  keys were created. The key of a bucket is the map identifier (JavaScript turns it into a
  string to use it as a property name, and \<^verbatim>\<open>Number\<close> turns the string back).
\<close>

type_synonym mapGroups = "(int \<times> waypoint list) list"

text \<open>
  \<^verbatim>\<open>if (!obj[k]) obj[k] = []; obj[k].push(v)\<close>: \<^verbatim>\<open>!obj[k]\<close> holds exactly when the key
  is new (a bucket is an array, and every array is truthy).
\<close>

definition bucket_push :: "('k \<times> 'v list) list \<Rightarrow> 'k \<Rightarrow> 'v \<Rightarrow> ('k \<times> 'v list) list" where
  "bucket_push obj k v =
     (if map_of obj k = None then obj @ [(k, [v])]
      else map (\<lambda>(k', bucket). if k' = k then (k', bucket @ [v]) else (k', bucket)) obj)"

text \<open>One step of the \<^verbatim>\<open>reduce\<close> of \<^verbatim>\<open>groupByMap\<close>.\<close>

definition groupByMap_step :: "mapGroups \<Rightarrow> waypoint \<Rightarrow> mapGroups" where
  "groupByMap_step groups treasure = bucket_push groups (mapId treasure) treasure"

definition groupByMap :: "waypoint list \<Rightarrow> mapGroups" where
  "groupByMap treasures = foldl groupByMap_step [] treasures"

text \<open>
  \<^verbatim>\<open>mapGroups[id]\<close>. Every identifier the source looks up is a key of the object
  (it comes from \<^verbatim>\<open>Object.keys(mapGroups)\<close>); the empty list stands for the
  \<^verbatim>\<open>undefined\<close> of a missing key, which no call below reaches.
\<close>

definition lookupGroup :: "mapGroups \<Rightarrow> int \<Rightarrow> waypoint list" where
  "lookupGroup groups k = (case map_of groups k of Some bucket \<Rightarrow> bucket | None \<Rightarrow> [])"

text \<open>
  \<^verbatim>\<open>Object.keys(obj).map(Number)\<close>: JavaScript lists the keys that are array indices
  (the integers from 0 to \<open>2\<^sup>3\<^sup>2 - 2\<close>) first, in ascending order, and then every other key in
  the order of its creation.
\<close>

definition isArrayIndex :: "int \<Rightarrow> bool" where
  "isArrayIndex k \<longleftrightarrow> 0 \<le> k \<and> k < 4294967295"

definition objectKeys :: "(int \<times> 'v) list \<Rightarrow> int list" where
  "objectKeys obj =
     sort (filter isArrayIndex (map fst obj)) @ filter (\<lambda>k. \<not> isArrayIndex k) (map fst obj)"

section \<open>Ordering the treasures of one map\<close>

text \<open>
  The body of the two \<^verbatim>\<open>forEach\<close> loops of \<^verbatim>\<open>sortWithinMap\<close>: \<open>idx\<close> is the index of
  the element visited, the state is \<^verbatim>\<open>minDist\<close> and the index chosen so far.
\<close>

fun nearest_forEach :: "point \<Rightarrow> waypoint list \<Rightarrow> nat \<Rightarrow> jsnum \<times> nat \<Rightarrow> jsnum \<times> nat" where
  "nearest_forEach p [] idx st = st"
| "nearest_forEach p (t # ts) idx (minDist, chosen) =
     (let dist = calcDistance p (coords t) in
      if js_lt dist minDist then nearest_forEach p ts (idx + 1) (dist, idx)
      else nearest_forEach p ts (idx + 1) (minDist, chosen))"

text \<open>Both loops start from \<^verbatim>\<open>minDist = Infinity\<close> and index 0.\<close>

definition nearestIdx :: "point \<Rightarrow> waypoint list \<Rightarrow> nat" where
  "nearestIdx p remaining = snd (nearest_forEach p remaining 0 (PosInf, 0))"

lemma nearest_forEach_range:
  "snd (nearest_forEach p ts idx st) = snd st
   \<or> (idx \<le> snd (nearest_forEach p ts idx st) \<and> snd (nearest_forEach p ts idx st) < idx + length ts)"
proof (induction ts arbitrary: idx st)
  case Nil
  then show ?case by simp
next
  case (Cons t ts)
  obtain minDist chosen where st: "st = (minDist, chosen)" by (cases st)
  show ?case
  proof (cases "js_lt (calcDistance p (coords t)) minDist")
    case True
    with Cons.IH[of "idx + 1" "(calcDistance p (coords t), idx)"] st show ?thesis
      by (auto simp: Let_def)
  next
    case False
    with Cons.IH[of "idx + 1" "(minDist, chosen)"] st show ?thesis
      by (auto simp: Let_def)
  qed
qed

lemma nearestIdx_less: "remaining \<noteq> [] \<Longrightarrow> nearestIdx p remaining < length remaining"
  using nearest_forEach_range[of p remaining 0 "(PosInf, 0)"] by (auto simp: nearestIdx_def)

text \<open>
  \<^verbatim>\<open>remaining.splice(idx, 1)\<close>: the array without the element at \<open>idx\<close> (unchanged when
  \<open>idx\<close> is out of range).
\<close>

definition splice1 :: "'a list \<Rightarrow> nat \<Rightarrow> 'a list" where
  "splice1 xs idx = take idx xs @ drop (idx + 1) xs"

text \<open>
  The \<^verbatim>\<open>while\<close> loop of \<^verbatim>\<open>sortWithinMap\<close>. The index is in range on every iteration
  (\<open>nearestIdx_less\<close>), so \<open>remaining ! currentIdx\<close> is the element the source removes.
\<close>

function sortWithinMap_loop :: "waypoint list \<Rightarrow> nat \<Rightarrow> waypoint list \<Rightarrow> waypoint list" where
  "sortWithinMap_loop remaining currentIdx result =
     (if length remaining > 0 then
        (let current = remaining ! currentIdx;
             remaining' = splice1 remaining currentIdx;
             result' = result @ [current]
         in if length remaining' = 0 then result'
            else sortWithinMap_loop remaining' (nearestIdx (coords current) remaining') result')
      else result)"
  by pat_completeness auto
termination
proof (relation "measure (\<lambda>(remaining, currentIdx, result).
          2 * length remaining + (if currentIdx < length remaining then 0 else 1))", goal_cases)
  case 1
  show ?case by simp
next
  case (2 remaining currentIdx result current remaining' result')
  then have ne: "remaining' \<noteq> []" by simp
  have len: "length remaining' = (if currentIdx < length remaining then length remaining - 1 else length remaining)"
    using 2 by (auto simp: splice1_def)
  show ?case using nearestIdx_less[OF ne, of "coords current"] len 2 by (auto split: if_splits)
qed

declare sortWithinMap_loop.simps [simp del]

definition sortWithinMap :: "waypoint list \<Rightarrow> point option \<Rightarrow> waypoint list" where
  "sortWithinMap treasures startCoords =
     (if length treasures \<le> 1 then treasures
      else
        (let remaining = treasures;
             currentIdx = (case startCoords of None \<Rightarrow> 0 | Some sc \<Rightarrow> nearestIdx sc remaining)
         in sortWithinMap_loop remaining currentIdx []))"

section \<open>The region table\<close>

definition MAP_REGION_GROUPS :: "(string \<times> int list) list" where
  "MAP_REGION_GROUPS =
     [(''gyr_abania'', [367, 368, 369]),
      (''othard'', [371, 354, 372]),
      (''ishgard'', [211, 212, 213, 214, 215]),
      (''norvrandt'', [491, 492, 493, 494, 495, 496]),
      (''ew_north'', [695, 696]),
      (''ew_endgame'', [698, 699, 700]),
      (''dt_tural'', [857, 858, 859]),
      (''dt_solution'', [860, 861, 862])]"

fun getMapRegion_entries :: "(string \<times> int list) list \<Rightarrow> int \<Rightarrow> string option" where
  "getMapRegion_entries [] m = None"
| "getMapRegion_entries ((region, mapIds) # rest) m =
     (if m \<in> set mapIds then Some region else getMapRegion_entries rest m)"

definition getMapRegion :: "int \<Rightarrow> string option" where
  "getMapRegion m = getMapRegion_entries MAP_REGION_GROUPS m"

section \<open>Sorting with a comparator\<close>

text \<open>
  \<^verbatim>\<open>Array.prototype.sort(cmp)\<close> is stable. Every comparator of the source is consistent
  (it orders its arguments by a key), and for such a comparator the result is the one
  stable arrangement, which insertion from the right computes.
\<close>

fun js_sort_insert :: "('a \<Rightarrow> 'a \<Rightarrow> int) \<Rightarrow> 'a \<Rightarrow> 'a list \<Rightarrow> 'a list" where
  "js_sort_insert cmp a [] = [a]"
| "js_sort_insert cmp a (b # bs) =
     (if cmp a b \<le> 0 then a # b # bs else b # js_sort_insert cmp a bs)"

definition js_sort :: "('a \<Rightarrow> 'a \<Rightarrow> int) \<Rightarrow> 'a list \<Rightarrow> 'a list" where
  "js_sort cmp xs = foldr (js_sort_insert cmp) xs []"

section \<open>Ordering the maps: the region table policy\<close>

text \<open>\<^verbatim>\<open>startMapId ? ... \<close>: \<^verbatim>\<open>null\<close> and the number 0 are falsy.\<close>

definition truthyId :: "int option \<Rightarrow> bool" where
  "truthyId startMapId = (case startMapId of None \<Rightarrow> False | Some m \<Rightarrow> m \<noteq> 0)"

text \<open>
  The first loop of \<^verbatim>\<open>sortMaps\<close>: the state is \<^verbatim>\<open>regionGroups\<close> (keys in the order of
  their creation) and \<^verbatim>\<open>ungroupedMaps\<close>. A region name of the table is a non-empty string,
  hence truthy.
\<close>

definition sortMaps_partition_step ::
  "(string \<times> int list) list \<times> int list \<Rightarrow> int \<Rightarrow> (string \<times> int list) list \<times> int list" where
  "sortMaps_partition_step st m =
     (case st of (regionGroups, ungroupedMaps) \<Rightarrow>
        (case getMapRegion m of
           Some region \<Rightarrow> (bucket_push regionGroups region m, ungroupedMaps)
         | None \<Rightarrow> (regionGroups, ungroupedMaps @ [m])))"

definition sortMaps_partition :: "int list \<Rightarrow> (string \<times> int list) list \<times> int list" where
  "sortMaps_partition mapIds = foldl sortMaps_partition_step ([], []) mapIds"

definition startRegionOf :: "int option \<Rightarrow> string option" where
  "startRegionOf startMapId =
     (case startMapId of None \<Rightarrow> None | Some m \<Rightarrow> if m \<noteq> 0 then getMapRegion m else None)"

text \<open>\<^verbatim>\<open>regionTreasureCounts[region]\<close>, for a region of \<^verbatim>\<open>regionGroups\<close>.\<close>

definition regionTreasureCounts :: "mapGroups \<Rightarrow> (string \<times> int list) list \<Rightarrow> string \<Rightarrow> int" where
  "regionTreasureCounts groups regionGroups region =
     (case map_of regionGroups region of
        Some regionMapIds \<Rightarrow> foldl (\<lambda>sum m. sum + int (length (lookupGroup groups m))) 0 regionMapIds
      | None \<Rightarrow> 0)"

text \<open>The comparator of \<^verbatim>\<open>sortedRegions\<close>.\<close>

definition regionCompare :: "string option \<Rightarrow> (string \<Rightarrow> int) \<Rightarrow> string \<Rightarrow> string \<Rightarrow> int" where
  "regionCompare startRegion counts a b =
     (case startRegion of
        Some sr \<Rightarrow> if a = sr then - 1 else if b = sr then 1 else counts b - counts a
      | None \<Rightarrow> counts b - counts a)"

text \<open>
  The comparator of the two sorts of map identifiers. \<open>pinned\<close> is the start map when the
  guard of the comparator holds (\<^verbatim>\<open>startMapId && region === startRegion\<close> for the maps of a
  region, \<^verbatim>\<open>startMapId && !startRegion\<close> for the ungrouped maps), and \<open>None\<close> otherwise.
\<close>

definition mapCompare :: "int option \<Rightarrow> mapGroups \<Rightarrow> int \<Rightarrow> int \<Rightarrow> int" where
  "mapCompare pinned groups a b =
     (case pinned of
        Some s \<Rightarrow> if a = s then - 1 else if b = s then 1
                  else int (length (lookupGroup groups b)) - int (length (lookupGroup groups a))
      | None \<Rightarrow> int (length (lookupGroup groups b)) - int (length (lookupGroup groups a)))"

definition sortedRegions :: "mapGroups \<Rightarrow> int option \<Rightarrow> string list" where
  "sortedRegions groups startMapId =
     (let regionGroups = fst (sortMaps_partition (objectKeys groups)) in
      js_sort (regionCompare (startRegionOf startMapId) (regionTreasureCounts groups regionGroups))
        (map fst regionGroups))"

text \<open>\<^verbatim>\<open>regionGroups[region]\<close> after its sort.\<close>

definition sortedRegionMaps :: "mapGroups \<Rightarrow> int option \<Rightarrow> string \<Rightarrow> int list" where
  "sortedRegionMaps groups startMapId region =
     (let regionGroups = fst (sortMaps_partition (objectKeys groups));
          pinned = (if truthyId startMapId \<and> Some region = startRegionOf startMapId
                    then startMapId else None)
      in js_sort (mapCompare pinned groups)
           (case map_of regionGroups region of Some ms \<Rightarrow> ms | None \<Rightarrow> []))"

text \<open>\<^verbatim>\<open>ungroupedMaps\<close> after its sort.\<close>

definition sortedUngrouped :: "mapGroups \<Rightarrow> int option \<Rightarrow> int list" where
  "sortedUngrouped groups startMapId =
     (let ungroupedMaps = snd (sortMaps_partition (objectKeys groups));
          pinned = (if truthyId startMapId \<and> startRegionOf startMapId = None
                    then startMapId else None)
      in js_sort (mapCompare pinned groups) ungroupedMaps)"

definition sortMaps :: "mapGroups \<Rightarrow> int option \<Rightarrow> int list" where
  "sortMaps groups startMapId =
     (let mapIds = objectKeys groups in
      if length mapIds \<le> 1 then mapIds
      else
        (let regionMaps = concat (map (sortedRegionMaps groups startMapId)
                                      (sortedRegions groups startMapId));
             ungroupedMaps = sortedUngrouped groups startMapId
         in if truthyId startMapId \<and> startRegionOf startMapId = None
               \<and> (case startMapId of Some m \<Rightarrow> m \<in> set ungroupedMaps | None \<Rightarrow> False)
            then ungroupedMaps @ regionMaps
            else regionMaps @ ungroupedMaps))"

section \<open>2-opt improvement\<close>

text \<open>\<^verbatim>\<open>xs.slice(a, b)\<close> for indices that are not negative.\<close>

definition js_slice :: "'a list \<Rightarrow> nat \<Rightarrow> nat \<Rightarrow> 'a list" where
  "js_slice xs a b = take (b - a) (drop a xs)"

text \<open>The new route of an improving exchange: the segment from \<open>i + 1\<close> to \<open>k\<close> is reversed.\<close>

definition reverseSegment :: "'a list \<Rightarrow> nat \<Rightarrow> nat \<Rightarrow> 'a list" where
  "reverseSegment route i k =
     js_slice route 0 (i + 1) @ rev (js_slice route (i + 1) (k + 1)) @ drop (k + 1) route"

lemma length_reverseSegment:
  "k < length route \<Longrightarrow> i \<le> k \<Longrightarrow> length (reverseSegment route i k) = length route"
  by (auto simp: reverseSegment_def js_slice_def)

lemma length_reverseSegment_le:
  "k < length route \<Longrightarrow> length (reverseSegment route i k) \<le> length route + (i - k)"
  by (auto simp: reverseSegment_def js_slice_def)

text \<open>
  The inner \<^verbatim>\<open>for\<close> loop, over \<open>k\<close>; the state is \<^verbatim>\<open>route\<close> and \<^verbatim>\<open>improved\<close>. The loop
  starts at \<open>k = i + 2\<close>, so every index it reads is in range.
\<close>

function improve2Opt_k :: "nat \<Rightarrow> nat \<Rightarrow> waypoint list \<times> bool \<Rightarrow> waypoint list \<times> bool" where
  "improve2Opt_k i k (route, improved) =
     (if k < length route then
        (let d1 = calcDistance (coords (route ! i)) (coords (route ! (i + 1)));
             d2 = calcDistance (coords (route ! k)) (coords (route ! ((k + 1) mod length route)));
             d3 = calcDistance (coords (route ! i)) (coords (route ! k));
             d4 = calcDistance (coords (route ! (i + 1))) (coords (route ! ((k + 1) mod length route)))
         in if js_lt (js_add d3 d4) (js_add d1 d2)
            then improve2Opt_k i (k + 1) (reverseSegment route i k, True)
            else improve2Opt_k i (k + 1) (route, improved))
      else (route, improved))"
  by pat_completeness auto
termination
proof (relation "measures [\<lambda>(i, k, route, improved). i - k,
                            \<lambda>(i, k, route, improved). length route - k]", goal_cases)
  case 1
  show ?case by simp
next
  case (2 i k route improved d1 d2 d3 d4)
  then show ?case using length_reverseSegment[of k route i] by (cases "i \<le> k") auto
next
  case (3 i k route improved d1 d2 d3 d4)
  then show ?case by (cases "i \<le> k") auto
qed

declare improve2Opt_k.simps [simp del]

lemma length_improve2Opt_k:
  "i \<le> k \<Longrightarrow> length (fst (improve2Opt_k i k (route, improved))) = length route"
proof (induction i k "(route, improved)" arbitrary: route improved rule: improve2Opt_k.induct)
  case (1 i k route improved)
  show ?case
  proof (cases "k < length route")
    case False
    then show ?thesis by (simp add: improve2Opt_k.simps[of i k route improved])
  next
    case True
    let ?d1 = "calcDistance (coords (route ! i)) (coords (route ! (i + 1)))"
    let ?d2 = "calcDistance (coords (route ! k)) (coords (route ! ((k + 1) mod length route)))"
    let ?d3 = "calcDistance (coords (route ! i)) (coords (route ! k))"
    let ?d4 = "calcDistance (coords (route ! (i + 1))) (coords (route ! ((k + 1) mod length route)))"
    show ?thesis
    proof (cases "js_lt (js_add ?d3 ?d4) (js_add ?d1 ?d2)")
      case swap: True
      have "length (fst (improve2Opt_k i (k + 1) (reverseSegment route i k, True)))
              = length (reverseSegment route i k)"
        using "1.hyps"(1)[OF True refl refl refl refl swap] "1.prems" by simp
      then show ?thesis
        using True swap "1.prems" length_reverseSegment[of k route i]
        by (simp add: improve2Opt_k.simps[of i k route improved] Let_def)
    next
      case keep: False
      have "length (fst (improve2Opt_k i (k + 1) (route, improved))) = length route"
        using "1.hyps"(2)[OF True refl refl refl refl keep] "1.prems" by simp
      then show ?thesis
        using True keep by (simp add: improve2Opt_k.simps[of i k route improved] Let_def)
    qed
  qed
qed

text \<open>The outer \<^verbatim>\<open>for\<close> loop, over \<open>i\<close>, while \<^verbatim>\<open>i < route.length - 2\<close>.\<close>

function improve2Opt_i :: "nat \<Rightarrow> waypoint list \<times> bool \<Rightarrow> waypoint list \<times> bool" where
  "improve2Opt_i i (route, improved) =
     (if i + 2 < length route
      then improve2Opt_i (i + 1) (improve2Opt_k i (i + 2) (route, improved))
      else (route, improved))"
  by pat_completeness auto
termination
proof (relation "measure (\<lambda>(i, route, improved). length route - i)", goal_cases)
  case 1
  show ?case by simp
next
  case (2 i route improved)
  obtain r b where rb: "improve2Opt_k i (i + 2) (route, improved) = (r, b)"
    by (cases "improve2Opt_k i (i + 2) (route, improved)")
  have "length r = length route"
    using length_improve2Opt_k[of i "i + 2" route improved] rb by simp
  with 2 rb show ?case by simp
qed

declare improve2Opt_i.simps [simp del]

text \<open>The \<^verbatim>\<open>while\<close> loop: at most \<^verbatim>\<open>maxIterations\<close> passes, and none after a pass without an exchange.\<close>

function improve2Opt_while :: "nat \<Rightarrow> waypoint list \<Rightarrow> bool \<Rightarrow> nat \<Rightarrow> waypoint list" where
  "improve2Opt_while maxIterations route improved iteration =
     (if improved \<and> iteration < maxIterations
      then (case improve2Opt_i 0 (route, False) of
              (route', improved') \<Rightarrow> improve2Opt_while maxIterations route' improved' (iteration + 1))
      else route)"
  by pat_completeness auto
termination
  by (relation "measure (\<lambda>(maxIterations, route, improved, iteration). maxIterations - iteration)") auto

declare improve2Opt_while.simps [simp del]

definition improve2Opt :: "waypoint list \<Rightarrow> nat \<Rightarrow> waypoint list" where
  "improve2Opt treasures maxIterations =
     (if length treasures \<le> 3 then treasures
      else improve2Opt_while maxIterations treasures True 0)"

section \<open>The main function, with the region table policy\<close>

text \<open>
  The options object. A field is \<open>None\<close> when the caller leaves it out; the defaults of the
  destructuring are \<^verbatim>\<open>useMapGrouping = true\<close>, \<^verbatim>\<open>use2Opt = false\<close>, \<^verbatim>\<open>startTreasure = null\<close>.
\<close>

record options =
  useMapGrouping :: "bool option"
  use2Opt :: "bool option"
  startTreasure :: "waypoint option"

definition withDefault :: "'a \<Rightarrow> 'a option \<Rightarrow> 'a" where
  "withDefault d v = (case v of None \<Rightarrow> d | Some a \<Rightarrow> a)"

text \<open>
  The loop over \<^verbatim>\<open>sortedMapIds\<close>; the state is \<^verbatim>\<open>result\<close> and \<^verbatim>\<open>lastCoords\<close>.
\<close>

fun optimize_maps ::
  "mapGroups \<Rightarrow> int list \<Rightarrow> waypoint list \<times> point option \<Rightarrow> waypoint list \<times> point option" where
  "optimize_maps groups [] st = st"
| "optimize_maps groups (m # rest) (result, lastCoords) =
     (let sorted = sortWithinMap (lookupGroup groups m) lastCoords;
          result' = result @ sorted;
          lastCoords' = (if length sorted > 0 then Some (coords (last sorted)) else lastCoords)
      in optimize_maps groups rest (result', lastCoords'))"

text \<open>
  The list is \<open>None\<close> when the caller passes \<^verbatim>\<open>null\<close> or \<^verbatim>\<open>undefined\<close>.
\<close>

definition optimize :: "waypoint list option \<Rightarrow> options \<Rightarrow> waypoint list" where
  "optimize treasures opts =
     (case treasures of
        None \<Rightarrow> []
      | Some ts \<Rightarrow>
          if length ts \<le> 1 then ts
          else
            (let result =
                   (if withDefault True (useMapGrouping opts) then
                      (let groups = groupByMap ts;
                           startMapId = map_option mapId (startTreasure opts);
                           sortedMapIds = sortMaps groups startMapId
                       in fst (optimize_maps groups sortedMapIds
                                 ([], map_option coords (startTreasure opts))))
                    else sortWithinMap ts (map_option coords (startTreasure opts)))
             in if withDefault False (use2Opt opts) then improve2Opt result 50 else result))"

section \<open>Ordering the maps: the centroid policy\<close>

text \<open>
  The second version of the module orders the maps by the distance between the centres of
  their treasures. Its \<^verbatim>\<open>sortMaps\<close> and \<^verbatim>\<open>optimize\<close> are \<open>sortMaps_centroid\<close> and
  \<open>optimize_centroid\<close> here; the other functions are the same in both versions.
\<close>

definition calcCenter :: "waypoint list \<Rightarrow> point" where
  "calcCenter treasures =
     (if length treasures = 0 then \<lparr>px = Num 20, py = Num 20\<rparr>
      else
        (let sum = foldl (\<lambda>acc t. \<lparr>px = js_add (px acc) (px (coords t)),
                                     py = js_add (py acc) (py (coords t))\<rparr>)
                         \<lparr>px = Num 0, py = Num 0\<rparr> treasures
         in \<lparr>px = js_div_len (px sum) (length treasures),
             py = js_div_len (py sum) (length treasures)\<rparr>))"

text \<open>The only exception a call can raise: a property read on \<^verbatim>\<open>undefined\<close>.\<close>

datatype error = TypeError

text \<open>The \<^verbatim>\<open>reduce\<close> that chooses the first map.\<close>

definition mostTreasures :: "mapGroups \<Rightarrow> int list \<Rightarrow> int" where
  "mostTreasures groups mapIds =
     foldl (\<lambda>maxId m. if length (lookupGroup groups m) > length (lookupGroup groups maxId)
                        then m else maxId)
           (mapIds ! 0) mapIds"

text \<open>
  The \<^verbatim>\<open>for ... of remaining\<close> loop; the state is \<^verbatim>\<open>minDist\<close> and \<^verbatim>\<open>nearestMapId\<close>
  (\<open>None\<close> for \<^verbatim>\<open>null\<close>).
\<close>

fun nearestMap_for ::
  "point \<Rightarrow> mapGroups \<Rightarrow> int list \<Rightarrow> jsnum \<times> int option \<Rightarrow> jsnum \<times> int option" where
  "nearestMap_for currentCenter groups [] st = st"
| "nearestMap_for currentCenter groups (m # rest) (minDist, nearestMapId) =
     (let center = calcCenter (lookupGroup groups m);
          dist = calcDistance currentCenter center
      in if js_lt dist minDist then nearestMap_for currentCenter groups rest (dist, Some m)
         else nearestMap_for currentCenter groups rest (minDist, nearestMapId))"

definition nearestMap :: "point \<Rightarrow> mapGroups \<Rightarrow> int list \<Rightarrow> int option" where
  "nearestMap currentCenter groups remaining =
     snd (nearestMap_for currentCenter groups remaining (PosInf, None))"

lemma nearestMap_for_mem:
  "snd (nearestMap_for c groups ms st) = Some m \<Longrightarrow> snd st = Some m \<or> m \<in> set ms"
proof (induction ms arbitrary: st)
  case Nil
  then show ?case by simp
next
  case (Cons a ms)
  obtain minDist chosen where st: "st = (minDist, chosen)" by (cases st)
  show ?case
  proof (cases "js_lt (calcDistance c (calcCenter (lookupGroup groups a))) minDist")
    case True
    with Cons.prems st
    have "snd (nearestMap_for c groups ms (calcDistance c (calcCenter (lookupGroup groups a)), Some a)) = Some m"
      by (simp add: Let_def)
    from Cons.IH[OF this] show ?thesis by auto
  next
    case False
    with Cons.prems st have "snd (nearestMap_for c groups ms (minDist, chosen)) = Some m"
      by (simp add: Let_def)
    from Cons.IH[OF this] st show ?thesis by auto
  qed
qed

lemma nearestMap_mem: "nearestMap c groups remaining = Some m \<Longrightarrow> m \<in> set remaining"
  using nearestMap_for_mem[of c groups remaining "(PosInf, None)" m] by (simp add: nearestMap_def)

text \<open>
  The \<^verbatim>\<open>while\<close> loop. \<open>remaining\<close> is the set of the source in its iteration order (the
  order of insertion). When no map is nearer than \<^verbatim>\<open>Infinity\<close>, \<^verbatim>\<open>currentMapId\<close> becomes
  \<^verbatim>\<open>null\<close>; the next iteration pushes it and then reads \<^verbatim>\<open>mapGroups[null].length\<close>, which
  raises.
\<close>

function sortMaps_centroid_loop ::
  "mapGroups \<Rightarrow> int list \<Rightarrow> int \<Rightarrow> int list \<Rightarrow> error + int list" where
  "sortMaps_centroid_loop groups remaining currentMapId result =
     (if length remaining > 0 then
        (let result' = result @ [currentMapId];
             remaining' = removeAll currentMapId remaining
         in if length remaining' = 0 then Inr result'
            else
              (case nearestMap (calcCenter (lookupGroup groups currentMapId)) groups remaining' of
                 None \<Rightarrow> Inl TypeError
               | Some nearestMapId \<Rightarrow>
                   sortMaps_centroid_loop groups remaining' nearestMapId result'))
      else Inr result)"
  by pat_completeness auto
termination
proof (relation "measure (\<lambda>(groups, remaining, currentMapId, result).
          2 * length remaining + (if currentMapId \<in> set remaining then 0 else 1))", goal_cases)
  case 1
  show ?case by simp
next
  case (2 groups remaining currentMapId result result' remaining' nearestMapId)
  have mem: "nearestMapId \<in> set remaining'" using 2 nearestMap_mem by metis
  have "currentMapId \<in> set remaining \<Longrightarrow> length remaining' < length remaining"
    using 2 by (simp add: length_removeAll_less)
  moreover have "currentMapId \<notin> set remaining \<Longrightarrow> remaining' = remaining"
    using 2 by simp
  ultimately show ?case using mem by auto
qed

declare sortMaps_centroid_loop.simps [simp del]

definition sortMaps_centroid :: "mapGroups \<Rightarrow> error + int list" where
  "sortMaps_centroid groups =
     (let mapIds = objectKeys groups in
      if length mapIds \<le> 1 then Inr mapIds
      else sortMaps_centroid_loop groups mapIds (mostTreasures groups mapIds) [])"

section \<open>The main function, with the centroid policy\<close>

text \<open>This version reads no start treasure: the first map is ordered without an anchor.\<close>

definition optimize_centroid :: "waypoint list option \<Rightarrow> options \<Rightarrow> error + waypoint list" where
  "optimize_centroid treasures opts =
     (case treasures of
        None \<Rightarrow> Inr []
      | Some ts \<Rightarrow>
          if length ts \<le> 1 then Inr ts
          else
            (case (if withDefault True (useMapGrouping opts) then
                     (let groups = groupByMap ts in
                      case sortMaps_centroid groups of
                        Inl e \<Rightarrow> Inl e
                      | Inr sortedMapIds \<Rightarrow> Inr (fst (optimize_maps groups sortedMapIds ([], None))))
                   else Inr (sortWithinMap ts None)) of
               Inl e \<Rightarrow> Inl e
             | Inr result \<Rightarrow>
                 Inr (if withDefault False (use2Opt opts) then improve2Opt result 50 else result)))"

section \<open>Lengths of a route\<close>






section \<open>The nearest candidate, as the specification words it\<close>



section \<open>The distance of two map centres\<close>


section \<open>An invariant of the partition of the maps\<close>


section \<open>The store: arrays and waypoint objects\<close>

text \<open>
  The functions above work on values. To say what a call does to the arrays and objects
  the caller holds, the functions on the path of \<^verbatim>\<open>optimize\<close> (region table version) are
  written once more over a store. A treasure is an object, named by a reference; an array of
  treasures is named by an address and holds references, so that two arrays can share their
  elements, as a spread \<^verbatim>\<open>[...treasures]\<close> makes them do. The addresses below \<open>nextFree\<close> are
  the arrays that exist. The arrays of map ids that \<^verbatim>\<open>sortMaps\<close> builds and sorts hold no
  treasure and are not in the store; \<^verbatim>\<open>sortMaps\<close> only reads the keys of the groups and
  the lengths of the buckets, and stays the function on values. The options carry the start
  treasure by its fields, which are only read.
\<close>

type_synonym addr = nat

type_synonym oref = nat

record heap =
  objs :: "oref \<Rightarrow> waypoint"
  arrs :: "addr \<Rightarrow> oref list"
  nextFree :: addr

text \<open>
  An array literal, a spread, \<^verbatim>\<open>slice\<close>: a new array with the given elements. No statement
  of the module writes a field of a treasure, so there is no operation that changes \<open>objs\<close>.
\<close>

definition alloc :: "oref list \<Rightarrow> heap \<Rightarrow> addr \<times> heap" where
  "alloc xs h = (nextFree h, h\<lparr>arrs := (arrs h)(nextFree h := xs), nextFree := nextFree h + 1\<rparr>)"

text \<open>\<^verbatim>\<open>push\<close>, \<^verbatim>\<open>splice\<close>, \<^verbatim>\<open>reverse\<close>: the array at an address gets new contents.\<close>

definition store :: "addr \<Rightarrow> oref list \<Rightarrow> heap \<Rightarrow> heap" where
  "store a xs h = h\<lparr>arrs := (arrs h)(a := xs)\<rparr>"

text \<open>The treasures an array of references holds.\<close>

definition deref :: "heap \<Rightarrow> oref list \<Rightarrow> waypoint list" where
  "deref h rs = map (objs h) rs"

text \<open>
  The \<^verbatim>\<open>while\<close> loop of \<^verbatim>\<open>sortWithinMap\<close>: \<^verbatim>\<open>remaining.splice(currentIdx, 1)\<close> and
  \<^verbatim>\<open>result.push(current)\<close> write the two arrays in place. \<open>None\<close> stands for a call that
  does not return a value: if both names held one array the loop would take an element out
  and put it in again for ever, and an index outside the array makes \<^verbatim>\<open>current\<close> undefined,
  whose \<^verbatim>\<open>coords\<close> cannot be read.
\<close>

function sortWithinMap_loop_h :: "addr \<Rightarrow> nat \<Rightarrow> addr \<Rightarrow> heap \<Rightarrow> heap option" where
  "sortWithinMap_loop_h remaining currentIdx result h =
     (if length (arrs h remaining) > 0 then
        (if remaining = result then None
         else if \<not> currentIdx < length (arrs h remaining) then None
         else
           (let current = arrs h remaining ! currentIdx;
                h1 = store remaining (splice1 (arrs h remaining) currentIdx) h;
                h2 = store result (arrs h1 result @ [current]) h1
            in if length (arrs h2 remaining) = 0 then Some h2
               else sortWithinMap_loop_h remaining
                      (nearestIdx (coords (objs h2 current)) (deref h2 (arrs h2 remaining)))
                      result h2))
      else Some h)"
  by pat_completeness auto

termination
proof (relation "measure (\<lambda>(remaining, currentIdx, result, h). length (arrs h remaining))", goal_cases)
  case 1
  show ?case by simp
next
  case (2 remaining currentIdx result h current h1 h2)
  then show ?case by (simp add: store_def splice1_def)
qed

declare sortWithinMap_loop_h.simps [simp del]

text \<open>
  \<^verbatim>\<open>sortWithinMap\<close>: the short list is returned as a copy; otherwise \<^verbatim>\<open>result\<close> and
  \<^verbatim>\<open>remaining\<close> are two new arrays.
\<close>

definition sortWithinMap_h :: "addr \<Rightarrow> point option \<Rightarrow> heap \<Rightarrow> (addr \<times> heap) option" where
  "sortWithinMap_h treasures startCoords h =
     (if length (arrs h treasures) \<le> 1 then Some (alloc (arrs h treasures) h)
      else
        (case alloc [] h of (result, h1) \<Rightarrow>
         case alloc (arrs h1 treasures) h1 of (remaining, h2) \<Rightarrow>
           (let currentIdx = (case startCoords of None \<Rightarrow> 0
                              | Some sc \<Rightarrow> nearestIdx sc (deref h2 (arrs h2 remaining)))
            in case sortWithinMap_loop_h remaining currentIdx result h2 of
                 None \<Rightarrow> None
               | Some h3 \<Rightarrow> Some (result, h3))))"

text \<open>
  What a call leaves alone: no object changes, and every array that existed before the call
  has the contents it had.
\<close>

definition frame :: "heap \<Rightarrow> heap \<Rightarrow> bool" where
  "frame h h' \<longleftrightarrow>
     objs h' = objs h \<and> nextFree h \<le> nextFree h' \<and> (\<forall>a<nextFree h. arrs h' a = arrs h a)"

text \<open>
  One call of the callback of the \<^verbatim>\<open>reduce\<close> of \<^verbatim>\<open>groupByMap\<close>, on the element
  \<open>treasure\<close>. The object \<^verbatim>\<open>groups\<close> is the list of its keys, in insertion order, each with
  the address of its bucket.
\<close>

definition groupByMap_step_h :: "(int \<times> addr) list \<times> heap \<Rightarrow> oref \<Rightarrow> (int \<times> addr) list \<times> heap" where
  "groupByMap_step_h st treasure =
     (case st of (groups, h) \<Rightarrow>
        (let m = mapId (objs h treasure) in
         case map_of groups m of
           None \<Rightarrow> (case alloc [] h of (bucket, h1) \<Rightarrow>
                      (groups @ [(m, bucket)], store bucket (arrs h1 bucket @ [treasure]) h1))
         | Some bucket \<Rightarrow> (groups, store bucket (arrs h bucket @ [treasure]) h)))"

text \<open>
  The \<^verbatim>\<open>reduce\<close> itself: it visits the indices below the length the array had at the
  start and reads each element from the array as it is then.
\<close>

function groupByMap_loop_h ::
  "addr \<Rightarrow> nat \<Rightarrow> nat \<Rightarrow> (int \<times> addr) list \<times> heap \<Rightarrow> (int \<times> addr) list \<times> heap" where
  "groupByMap_loop_h treasures i len st =
     (if i < len then
        (if i < length (arrs (snd st) treasures)
         then groupByMap_loop_h treasures (i + 1) len
                (groupByMap_step_h st (arrs (snd st) treasures ! i))
         else groupByMap_loop_h treasures (i + 1) len st)
      else st)"
  by pat_completeness auto

termination
  by (relation "measure (\<lambda>(treasures, i, len, st). len - i)") auto

declare groupByMap_loop_h.simps [simp del]

definition groupByMap_h :: "addr \<Rightarrow> heap \<Rightarrow> (int \<times> addr) list \<times> heap" where
  "groupByMap_h treasures h = groupByMap_loop_h treasures 0 (length (arrs h treasures)) ([], h)"

text \<open>The buckets of the object, read from the heap.\<close>

definition viewGroups :: "heap \<Rightarrow> (int \<times> addr) list \<Rightarrow> mapGroups" where
  "viewGroups h groups = map (\<lambda>(k, bucket). (k, deref h (arrs h bucket))) groups"

text \<open>
  The loop over \<^verbatim>\<open>sortedMapIds\<close>: \<^verbatim>\<open>result.push(...sorted)\<close> writes \<^verbatim>\<open>result\<close> in place. A
  key with no bucket gives \<^verbatim>\<open>undefined\<close>, whose length cannot be read.
\<close>

fun optimize_maps_h ::
  "(int \<times> addr) list \<Rightarrow> int list \<Rightarrow> addr \<Rightarrow> point option \<Rightarrow> heap \<Rightarrow> (point option \<times> heap) option" where
  "optimize_maps_h groups [] result lastCoords h = Some (lastCoords, h)"
| "optimize_maps_h groups (m # rest) result lastCoords h =
     (case map_of groups m of
        None \<Rightarrow> None
      | Some bucket \<Rightarrow>
          (case sortWithinMap_h bucket lastCoords h of
             None \<Rightarrow> None
           | Some (sortedArr, h1) \<Rightarrow>
               (let h2 = store result (arrs h1 result @ arrs h1 sortedArr) h1;
                    lastCoords' = (if length (arrs h2 sortedArr) > 0
                                   then Some (coords (objs h2 (last (arrs h2 sortedArr))))
                                   else lastCoords)
                in optimize_maps_h groups rest result lastCoords' h2)))"

text \<open>
  An improving exchange: \<^verbatim>\<open>route.slice(i + 1, k + 1)\<close> is a new array, reversed in place;
  the two other slices and the array literal are new arrays as well.
\<close>

definition reverseSegment_h :: "addr \<Rightarrow> nat \<Rightarrow> nat \<Rightarrow> heap \<Rightarrow> addr \<times> heap" where
  "reverseSegment_h route i k h =
     (case alloc (js_slice (arrs h route) (i + 1) (k + 1)) h of (reversed, h1) \<Rightarrow>
      (let h2 = store reversed (rev (arrs h1 reversed)) h1 in
       case alloc (js_slice (arrs h2 route) 0 (i + 1)) h2 of (front, h3) \<Rightarrow>
       case alloc (drop (k + 1) (arrs h3 route)) h3 of (tailArr, h4) \<Rightarrow>
         alloc (arrs h4 front @ arrs h4 reversed @ arrs h4 tailArr) h4))"

text \<open>
  The loops of \<^verbatim>\<open>improve2Opt\<close> on the heap. The state is the address held by the variable
  \<^verbatim>\<open>route\<close>, the flag \<^verbatim>\<open>improved\<close> and the heap; \<open>None\<close> stands for a loop that does not
  return.
\<close>

partial_function (option) improve2Opt_k_h ::
  "nat \<Rightarrow> nat \<Rightarrow> addr \<times> bool \<times> heap \<Rightarrow> (addr \<times> bool \<times> heap) option" where
  "improve2Opt_k_h i k st =
     (case st of (route, improved, h) \<Rightarrow>
        if k < length (arrs h route) then
          (let r = deref h (arrs h route);
               d1 = calcDistance (coords (r ! i)) (coords (r ! (i + 1)));
               d2 = calcDistance (coords (r ! k)) (coords (r ! ((k + 1) mod length r)));
               d3 = calcDistance (coords (r ! i)) (coords (r ! k));
               d4 = calcDistance (coords (r ! (i + 1))) (coords (r ! ((k + 1) mod length r)))
           in if js_lt (js_add d3 d4) (js_add d1 d2)
              then (case reverseSegment_h route i k h of
                      (route', h') \<Rightarrow> improve2Opt_k_h i (k + 1) (route', True, h'))
              else improve2Opt_k_h i (k + 1) (route, improved, h))
        else Some (route, improved, h))"

partial_function (option) improve2Opt_i_h ::
  "nat \<Rightarrow> addr \<times> bool \<times> heap \<Rightarrow> (addr \<times> bool \<times> heap) option" where
  "improve2Opt_i_h i st =
     (case st of (route, improved, h) \<Rightarrow>
        if i + 2 < length (arrs h route)
        then Option.bind (improve2Opt_k_h i (i + 2) (route, improved, h)) (improve2Opt_i_h (i + 1))
        else Some (route, improved, h))"

partial_function (option) improve2Opt_while_h ::
  "nat \<Rightarrow> addr \<Rightarrow> bool \<Rightarrow> nat \<Rightarrow> heap \<Rightarrow> (addr \<times> heap) option" where
  "improve2Opt_while_h maxIterations route improved iteration h =
     (if improved \<and> iteration < maxIterations
      then Option.bind (improve2Opt_i_h 0 (route, False, h))
             (\<lambda>(route', improved', h'). improve2Opt_while_h maxIterations route' improved' (iteration + 1) h')
      else Some (route, h))"

text \<open>\<^verbatim>\<open>improve2Opt\<close>: both the short list and the working route start as a copy.\<close>

definition improve2Opt_h :: "addr \<Rightarrow> nat \<Rightarrow> heap \<Rightarrow> (addr \<times> heap) option" where
  "improve2Opt_h treasures maxIterations h =
     (if length (arrs h treasures) \<le> 3 then Some (alloc (arrs h treasures) h)
      else (case alloc (arrs h treasures) h of
              (route, h1) \<Rightarrow> improve2Opt_while_h maxIterations route True 0 h1))"

text \<open>
  \<^verbatim>\<open>optimize\<close> on the heap. The argument is the address of the list (\<open>None\<close> for an absent
  list); the result is the address of the route and the heap after the call.
\<close>

definition optimize_h :: "addr option \<Rightarrow> options \<Rightarrow> heap \<Rightarrow> (addr \<times> heap) option" where
  "optimize_h treasures opts h =
     (case treasures of
        None \<Rightarrow> Some (alloc [] h)
      | Some ts \<Rightarrow>
          if length (arrs h ts) \<le> 1 then Some (alloc (arrs h ts) h)
          else
            (case (if withDefault True (useMapGrouping opts) then
                     (case groupByMap_h ts h of
                        (groups, h1) \<Rightarrow>
                          (let startMapId = map_option mapId (startTreasure opts);
                               sortedMapIds = sortMaps (viewGroups h1 groups) startMapId
                           in case alloc [] h1 of
                                (result, h2) \<Rightarrow>
                                  (case optimize_maps_h groups sortedMapIds result
                                          (map_option coords (startTreasure opts)) h2 of
                                     None \<Rightarrow> None
                                   | Some (lastCoords, h3) \<Rightarrow> Some (result, h3))))
                   else sortWithinMap_h ts (map_option coords (startTreasure opts)) h) of
               None \<Rightarrow> None
             | Some (result, h4) \<Rightarrow>
                 if withDefault False (use2Opt opts) then improve2Opt_h result 50 h4
                 else Some (result, h4)))"

section \<open>Invariants of the store\<close>

text \<open>As \<open>frame\<close>, but the arrays at the addresses in \<open>X\<close> may have changed.\<close>

definition frame_except :: "addr set \<Rightarrow> heap \<Rightarrow> heap \<Rightarrow> bool" where
  "frame_except X h h' \<longleftrightarrow>
     objs h' = objs h \<and> nextFree h \<le> nextFree h'
     \<and> (\<forall>a<nextFree h. a \<notin> X \<longrightarrow> arrs h' a = arrs h a)"

text \<open>
  The groups while \<^verbatim>\<open>groupByMap\<close> runs from the heap \<open>h0\<close>: the keys are distinct, and the
  buckets are distinct arrays made after \<open>h0\<close>.
\<close>

definition groups_inv :: "heap \<Rightarrow> (int \<times> addr) list \<Rightarrow> heap \<Rightarrow> bool" where
  "groups_inv h0 groups h \<longleftrightarrow>
     frame h0 h \<and> distinct (map fst groups) \<and> distinct (map snd groups)
     \<and> (\<forall>a\<in>snd ` set groups. nextFree h0 \<le> a \<and> a < nextFree h)"

text \<open>The references in the bucket of a key.\<close>

definition bucketRefs :: "heap \<Rightarrow> (int \<times> addr) list \<Rightarrow> int \<Rightarrow> oref list" where
  "bucketRefs h groups m = (case map_of groups m of Some b \<Rightarrow> arrs h b | None \<Rightarrow> [])"

section \<open>Permutation lemmas\<close>

subsection \<open>sortWithinMap is a permutation\<close>

lemma mset_splice1:
  "idx < length xs \<Longrightarrow> mset (splice1 xs idx) + {#xs ! idx#} = mset xs"
proof -
  assume a: "idx < length xs"
  have "mset (take idx xs @ xs ! idx # drop (Suc idx) xs) = mset xs"
    using id_take_nth_drop[OF a] by simp
  then show ?thesis by (simp add: splice1_def)
qed



subsection \<open>Buckets\<close>

lemma fst_bucket_push:
  "map fst (bucket_push obj k v) = (if map_of obj k = None then map fst obj @ [k] else map fst obj)"
  by (auto simp: bucket_push_def split: prod.splits intro!: map_idI)

lemma distinct_bucket_push:
  "distinct (map fst obj) \<Longrightarrow> distinct (map fst (bucket_push obj k v))"
  by (auto simp: fst_bucket_push map_of_eq_None_iff)

lemma bucket_map_absent:
  "k \<notin> fst ` set obj \<Longrightarrow>
   map (\<lambda>(k', bucket). if k' = k then (k', bucket @ [v]) else (k', bucket)) obj = obj"
  by (induction obj) auto

lemma mset_concat_bucket_map:
  "distinct (map fst obj) \<Longrightarrow> k \<in> fst ` set obj \<Longrightarrow>
   mset (concat (map snd (map (\<lambda>(k', bucket). if k' = k then (k', bucket @ [v]) else (k', bucket)) obj)))
     = mset (concat (map snd obj)) + {#v#}"
proof (induction obj)
  case Nil
  then show ?case by simp
next
  case (Cons e obj)
  obtain k' b where e: "e = (k', b)" by (cases e)
  show ?case
  proof (cases "k' = k")
    case True
    then have "k \<notin> fst ` set obj" using Cons.prems(1) e by auto
    then show ?thesis using True e by (simp add: bucket_map_absent)
  next
    case False
    then have "k \<in> fst ` set obj" using Cons.prems(2) e by auto
    then show ?thesis using False e Cons.IH Cons.prems(1) by simp
  qed
qed

lemma mset_concat_bucket_push:
  "distinct (map fst obj) \<Longrightarrow>
   mset (concat (map snd (bucket_push obj k v))) = mset (concat (map snd obj)) + {#v#}"
  by (auto simp: bucket_push_def map_of_eq_None_iff mset_concat_bucket_map simp del: map_map)





lemma mset_objectKeys: "mset (objectKeys obj) = mset (map fst obj)"
  using multiset_partition[of "mset (map fst obj)" isArrayIndex]
  by (simp add: objectKeys_def)

lemma mset_js_sort_insert: "mset (js_sort_insert cmp a bs) = add_mset a (mset bs)"
  by (induction bs) auto

lemma mset_js_sort: "mset (js_sort cmp xs) = mset xs"
  by (induction xs) (auto simp: js_sort_def mset_js_sort_insert)

lemma mset_concat_map: "mset (concat (map g xs)) = (\<Sum>k\<in>#mset xs. mset (g k))"
  by (induction xs) auto

lemma mset_concat_perm:
  assumes "mset ks = mset ks'"
  shows "mset (concat (map g ks)) = mset (concat (map g ks'))"
  using assms by (simp add: mset_concat_map)

lemma partition_fold_inv:
  "distinct (map fst (fst st)) \<Longrightarrow>
   distinct (map fst (fst (foldl sortMaps_partition_step st ms)))
   \<and> mset (concat (map snd (fst (foldl sortMaps_partition_step st ms))))
       + mset (snd (foldl sortMaps_partition_step st ms))
     = mset (concat (map snd (fst st))) + mset (snd st) + mset ms"
proof (induction ms arbitrary: st)
  case Nil
  then show ?case by simp
next
  case (Cons m ms)
  obtain rg ug where st: "st = (rg, ug)" by (cases st)
  let ?st' = "sortMaps_partition_step st m"
  have d: "distinct (map fst (fst ?st'))"
    using Cons.prems st by (auto simp: sortMaps_partition_step_def distinct_bucket_push split: option.splits)
  have m: "mset (concat (map snd (fst ?st'))) + mset (snd ?st')
           = mset (concat (map snd (fst st))) + mset (snd st) + {#m#}"
    using Cons.prems st by (auto simp: sortMaps_partition_step_def mset_concat_bucket_push split: option.splits)
  show ?case using Cons.IH[OF d] m by simp
qed

lemma distinct_partition: "distinct (map fst (fst (sortMaps_partition ms)))"
  using partition_fold_inv[of "([], [])" ms] by (simp add: sortMaps_partition_def)

lemma mset_partition:
  "mset (concat (map snd (fst (sortMaps_partition ms)))) + mset (snd (sortMaps_partition ms)) = mset ms"
  using partition_fold_inv[of "([], [])" ms] by (simp add: sortMaps_partition_def)

lemma lookup_alist_keys:
  "distinct (map fst al) \<Longrightarrow>
   map (\<lambda>k. case map_of al k of Some v \<Rightarrow> v | None \<Rightarrow> []) (map fst al) = map snd al"
proof -
  assume d: "distinct (map fst al)"
  have "\<And>e. e \<in> set al \<Longrightarrow> (case map_of al (fst e) of Some v \<Rightarrow> v | None \<Rightarrow> []) = snd e"
  proof -
    fix e assume "e \<in> set al"
    then have "(fst e, snd e) \<in> set al" by simp
    then have "map_of al (fst e) = Some (snd e)" using d by (simp only: map_of_eq_Some_iff)
    then show "(case map_of al (fst e) of Some v \<Rightarrow> v | None \<Rightarrow> []) = snd e" by simp
  qed
  then show ?thesis by simp
qed

lemma mset_regionMaps:
  "mset (concat (map (sortedRegionMaps groups startMapId) (sortedRegions groups startMapId)))
   = mset (concat (map snd (fst (sortMaps_partition (objectKeys groups)))))"
proof -
  let ?rg = "fst (sortMaps_partition (objectKeys groups))"
  let ?look = "\<lambda>k. case map_of ?rg k of Some v \<Rightarrow> v | None \<Rightarrow> []"
  have perm: "mset (sortedRegions groups startMapId) = mset (map fst ?rg)"
    by (simp add: sortedRegions_def Let_def mset_js_sort)
  have "mset (concat (map (sortedRegionMaps groups startMapId) (sortedRegions groups startMapId)))
        = (\<Sum>k\<in>#mset (sortedRegions groups startMapId). mset (sortedRegionMaps groups startMapId k))"
    by (rule mset_concat_map)
  also have "\<dots> = (\<Sum>k\<in>#mset (map fst ?rg). mset (?look k))"
    by (simp only: perm) (simp add: sortedRegionMaps_def Let_def mset_js_sort)
  also have "\<dots> = mset (concat (map ?look (map fst ?rg)))"
    by (rule mset_concat_map[symmetric])
  also have "\<dots> = mset (concat (map snd ?rg))"
    by (simp only: lookup_alist_keys[OF distinct_partition])
  finally show ?thesis .
qed

lemma mset_sortMaps: "mset (sortMaps groups startMapId) = mset (objectKeys groups)"
proof -
  have "mset (concat (map (sortedRegionMaps groups startMapId) (sortedRegions groups startMapId)))
        + mset (sortedUngrouped groups startMapId) = mset (objectKeys groups)"
    using mset_partition[of "objectKeys groups"]
    by (simp add: mset_regionMaps sortedUngrouped_def Let_def mset_js_sort)
  then show ?thesis by (auto simp: sortMaps_def Let_def add.commute)
qed



lemma mset_reverseSegment: "i \<le> k \<Longrightarrow> mset (reverseSegment route i k) = mset route"
proof -
  assume ik: "i \<le> k"
  have e: "drop (Suc k) route = drop (k - i) (drop (Suc i) route)" using ik by simp
  have "mset (reverseSegment route i k)
        = mset (take (Suc i) route)
          + (mset (take (k - i) (drop (Suc i) route)) + mset (drop (Suc k) route))"
    by (simp add: reverseSegment_def js_slice_def)
  also have "\<dots> = mset (take (Suc i) route)
          + mset (take (k - i) (drop (Suc i) route) @ drop (k - i) (drop (Suc i) route))"
    by (simp only: e mset_append)
  also have "\<dots> = mset (take (Suc i) route) + mset (drop (Suc i) route)"
    by (simp only: append_take_drop_id)
  also have "\<dots> = mset route" by (metis append_take_drop_id mset_append)
  finally show ?thesis .
qed



















section \<open>Properties of the route analysis\<close>



section \<open>The route is a permutation of the input\<close>










section \<open>Absent input and determinism\<close>

text \<open>
  Claim C10. For an absent list (\<open>None\<close>) both versions of \<open>optimize\<close> return the empty
  route and raise nothing, \<open>analyzeRoute\<close> returns three zeros, and the results are those
  of the empty list: one guard handles both. On the store, the empty route is a new array: it
  is at the first address that was free before the call, and no other array and no object
  changes.
\<close>

theorem absent_input:
  "optimize None opts = []
   \<and> optimize_centroid None opts = Inr []
   \<and> analyzeRoute None = \<lparr>totalDistance = Num 0, mapCount = 0, mapJumps = 0\<rparr>
   \<and> optimize None opts = optimize (Some []) opts
   \<and> optimize_centroid None opts = optimize_centroid (Some []) opts
   \<and> analyzeRoute None = analyzeRoute (Some [])
   \<and> optimize_h None opts h
       = Some (nextFree h, h\<lparr>arrs := (arrs h)(nextFree h := []), nextFree := nextFree h + 1\<rparr>)"
  by (simp add: optimize_def optimize_centroid_def analyzeRoute_def optimize_h_def alloc_def)



section \<open>Malformed input\<close>





section \<open>The 2-opt pass and the length of the route\<close>



























section \<open>The order within one map is the nearest-neighbour order\<close>








lemma map_splice1: "map f (splice1 I pos) = splice1 (map f I) pos"
  by (simp add: splice1_def take_map drop_map)






section \<open>The order of the maps under the region table policy\<close>

subsection \<open>Sorting with a consistent comparator\<close>






subsection \<open>The comparator of the regions\<close>


















section \<open>The order of the maps under the centroid policy\<close>

subsection \<open>The centre is the mean\<close>



subsection \<open>The first map\<close>









section \<open>The input is not modified\<close>

subsection \<open>The store functions and the functions on values\<close>

lemma deref_splice1: "deref h (splice1 xs i) = splice1 (deref h xs) i"
  by (simp add: deref_def map_splice1)

lemma deref_append: "deref h (xs @ ys) = deref h xs @ deref h ys"
  by (simp add: deref_def)

lemma length_deref: "length (deref h xs) = length xs"
  by (simp add: deref_def)

lemma deref_objs: "objs h' = objs h \<Longrightarrow> deref h' xs = deref h xs"
  by (simp add: deref_def)

lemma sortWithinMap_loop_h_sim:
  "remaining \<noteq> result \<Longrightarrow> currentIdx < length (arrs h remaining) \<Longrightarrow>
   \<exists>h'. sortWithinMap_loop_h remaining currentIdx result h = Some h'
     \<and> objs h' = objs h \<and> nextFree h' = nextFree h
     \<and> (\<forall>a. a \<noteq> remaining \<and> a \<noteq> result \<longrightarrow> arrs h' a = arrs h a)
     \<and> deref h' (arrs h' result)
         = sortWithinMap_loop (deref h (arrs h remaining)) currentIdx (deref h (arrs h result))
     \<and> mset (arrs h' result) = mset (arrs h result) + mset (arrs h remaining)"
proof (induction remaining currentIdx result h rule: sortWithinMap_loop_h.induct)
  case (1 remaining currentIdx result h)
  let ?rem = "arrs h remaining"
  let ?cur = "?rem ! currentIdx"
  let ?h1 = "store remaining (splice1 ?rem currentIdx) h"
  let ?h2 = "store result (arrs ?h1 result @ [?cur]) ?h1"
  have pos: "length ?rem > 0" using "1.prems"(2) by (cases ?rem) auto
  have rem2: "arrs ?h2 remaining = splice1 ?rem currentIdx"
    using "1.prems"(1) by (simp add: store_def)
  have res2: "arrs ?h2 result = arrs h result @ [?cur]"
    using "1.prems"(1) by (simp add: store_def)
  have objs2: "objs ?h2 = objs h" by (simp add: store_def)
  have nf2: "nextFree ?h2 = nextFree h" by (simp add: store_def)
  have other2: "\<forall>a. a \<noteq> remaining \<and> a \<noteq> result \<longrightarrow> arrs ?h2 a = arrs h a"
    by (simp add: store_def)
  have sp: "mset (splice1 ?rem currentIdx) + {#?cur#} = mset ?rem"
    using "1.prems"(2) by (rule mset_splice1)
  have curd: "deref h ?rem ! currentIdx = objs h ?cur"
    using "1.prems"(2) by (simp add: deref_def)
  have pure: "sortWithinMap_loop (deref h ?rem) currentIdx (deref h (arrs h result))
      = (if length (splice1 (deref h ?rem) currentIdx) = 0 then deref h (arrs h result) @ [objs h ?cur]
         else sortWithinMap_loop (splice1 (deref h ?rem) currentIdx)
                (nearestIdx (coords (objs h ?cur)) (splice1 (deref h ?rem) currentIdx))
                (deref h (arrs h result) @ [objs h ?cur]))"
    using pos curd by (subst sortWithinMap_loop.simps) (simp add: Let_def length_deref)
  have d2: "deref ?h2 (arrs ?h2 remaining) = splice1 (deref h ?rem) currentIdx"
    by (simp only: rem2 deref_objs[OF objs2] deref_splice1)
  have d3: "deref ?h2 (arrs ?h2 result) = deref h (arrs h result) @ [objs h ?cur]"
    by (simp only: res2 deref_objs[OF objs2] deref_append) (simp add: deref_def)
  have len2: "length (arrs ?h2 remaining) = length (splice1 (deref h ?rem) currentIdx)"
    using d2 by (metis length_deref)
  show ?case
  proof (cases "length (arrs ?h2 remaining) = 0")
    case True
    have run: "sortWithinMap_loop_h remaining currentIdx result h = Some ?h2"
      using pos "1.prems" True by (subst sortWithinMap_loop_h.simps) (simp add: Let_def)
    have "length (splice1 (deref h ?rem) currentIdx) = 0" using True len2 by simp
    then have "sortWithinMap_loop (deref h ?rem) currentIdx (deref h (arrs h result))
               = deref h (arrs h result) @ [objs h ?cur]"
      by (simp only: pure) simp
    then have d: "deref ?h2 (arrs ?h2 result)
         = sortWithinMap_loop (deref h ?rem) currentIdx (deref h (arrs h result))"
      by (simp only: d3)
    have m: "mset (arrs ?h2 result) = mset (arrs h result) + mset ?rem"
      using res2 sp True rem2 by simp
    show ?thesis using run objs2 nf2 other2 d m by (intro exI[of _ ?h2] conjI)
  next
    case False
    let ?idx = "nearestIdx (coords (objs ?h2 ?cur)) (deref ?h2 (arrs ?h2 remaining))"
    have ne: "deref ?h2 (arrs ?h2 remaining) \<noteq> []" using False by (simp add: deref_def)
    have idx: "?idx < length (arrs ?h2 remaining)"
      using nearestIdx_less[OF ne] by (simp add: length_deref)
    obtain h' where h': "sortWithinMap_loop_h remaining ?idx result ?h2 = Some h'"
        "objs h' = objs ?h2" "nextFree h' = nextFree ?h2"
        "\<forall>a. a \<noteq> remaining \<and> a \<noteq> result \<longrightarrow> arrs h' a = arrs ?h2 a"
        "deref h' (arrs h' result)
         = sortWithinMap_loop (deref ?h2 (arrs ?h2 remaining)) ?idx (deref ?h2 (arrs ?h2 result))"
        "mset (arrs h' result) = mset (arrs ?h2 result) + mset (arrs ?h2 remaining)"
      using "1.IH"[OF pos _ _ refl refl refl False "1.prems"(1) idx] "1.prems" by auto
    have run: "sortWithinMap_loop_h remaining currentIdx result h = Some h'"
      using pos "1.prems" False h'(1) by (subst sortWithinMap_loop_h.simps) (simp add: Let_def)
    have "length (splice1 (deref h ?rem) currentIdx) \<noteq> 0" using False len2 by simp
    then have "sortWithinMap_loop (deref h ?rem) currentIdx (deref h (arrs h result))
               = sortWithinMap_loop (splice1 (deref h ?rem) currentIdx)
                (nearestIdx (coords (objs h ?cur)) (splice1 (deref h ?rem) currentIdx))
                (deref h (arrs h result) @ [objs h ?cur])"
      by (simp only: pure) simp
    moreover have "deref h' (arrs h' result)
         = sortWithinMap_loop (splice1 (deref h ?rem) currentIdx)
                (nearestIdx (coords (objs h ?cur)) (splice1 (deref h ?rem) currentIdx))
                (deref h (arrs h result) @ [objs h ?cur])"
      using h'(5) by (simp only: d2 d3 objs2)
    ultimately have d: "deref h' (arrs h' result)
         = sortWithinMap_loop (deref h ?rem) currentIdx (deref h (arrs h result))"
      by simp
    have m: "mset (arrs h' result) = mset (arrs h result) + mset ?rem"
      using h'(6) res2 rem2 sp by (simp add: add.commute add.left_commute)
    have o: "objs h' = objs h" using h'(2) objs2 by simp
    have n: "nextFree h' = nextFree h" using h'(3) nf2 by simp
    have ot: "\<forall>a. a \<noteq> remaining \<and> a \<noteq> result \<longrightarrow> arrs h' a = arrs h a"
      using h'(4) other2 by simp
    show ?thesis using run o n ot d m by (intro exI[of _ h'] conjI)
  qed
qed

lemma frame_is_except: "frame h h' \<longleftrightarrow> frame_except {} h h'"
  by (simp add: frame_def frame_except_def)

lemma frame_except_refl: "frame_except X h h"
  by (simp add: frame_except_def)

lemma frame_except_trans:
  "frame_except X h1 h2 \<Longrightarrow> frame_except X h2 h3 \<Longrightarrow> frame_except X h1 h3"
  by (auto simp: frame_except_def)

lemma frame_except_mono: "frame_except X h h' \<Longrightarrow> X \<subseteq> Y \<Longrightarrow> frame_except Y h h'"
  by (auto simp: frame_except_def)

lemma frame_refl: "frame h h"
  by (simp add: frame_def)

lemma frame_trans: "frame h1 h2 \<Longrightarrow> frame h2 h3 \<Longrightarrow> frame h1 h3"
  by (auto simp: frame_def)

lemma alloc_props:
  assumes "alloc xs h = (a, h')"
  shows "a = nextFree h" "nextFree h' = nextFree h + 1" "objs h' = objs h"
    "arrs h' a = xs" "\<And>b. b \<noteq> a \<Longrightarrow> arrs h' b = arrs h b" "frame h h'"
  using assms by (auto simp: alloc_def frame_def)

lemma store_props:
  "nextFree (store a xs h) = nextFree h" "objs (store a xs h) = objs h"
  "arrs (store a xs h) a = xs" "b \<noteq> a \<Longrightarrow> arrs (store a xs h) b = arrs h b"
  by (simp_all add: store_def)

lemma frame_except_store: "frame_except {a} h (store a xs h)"
  by (simp add: frame_except_def store_def)

lemma frame_store_fresh: "frame h0 h \<Longrightarrow> nextFree h0 \<le> a \<Longrightarrow> frame h0 (store a xs h)"
  by (auto simp: frame_def store_def)

lemma sortWithinMap_h_ok:
  assumes "treasures < nextFree h"
  shows "\<exists>res h'. sortWithinMap_h treasures sc h = Some (res, h')
     \<and> frame h h' \<and> nextFree h \<le> res \<and> res < nextFree h'
     \<and> deref h' (arrs h' res) = sortWithinMap (deref h (arrs h treasures)) sc
     \<and> mset (arrs h' res) = mset (arrs h treasures)"
proof (cases "length (arrs h treasures) \<le> 1")
  case True
  obtain a h' where al: "alloc (arrs h treasures) h = (a, h')" by (cases "alloc (arrs h treasures) h")
  note p = alloc_props[OF al]
  have run: "sortWithinMap_h treasures sc h = Some (a, h')" using True al by (simp add: sortWithinMap_h_def)
  have d: "deref h' (arrs h' a) = sortWithinMap (deref h (arrs h treasures)) sc"
    using True p(3,4) by (simp add: sortWithinMap_def length_deref deref_def)
  have m: "mset (arrs h' a) = mset (arrs h treasures)" using p(4) by simp
  show ?thesis using run p(6) d m p(1,2) by (intro exI[of _ a] exI[of _ h'] conjI) simp_all
next
  case False
  obtain result h1 where a1: "alloc [] h = (result, h1)" by (cases "alloc [] h")
  obtain remaining h2 where a2: "alloc (arrs h1 treasures) h1 = (remaining, h2)"
    by (cases "alloc (arrs h1 treasures) h1")
  note p1 = alloc_props[OF a1] and p2 = alloc_props[OF a2]
  have tr1: "arrs h1 treasures = arrs h treasures" using p1(1) p1(5)[of treasures] assms by simp
  have ne: "remaining \<noteq> result" using p1(1,2) p2(1) by simp
  have rem2: "arrs h2 remaining = arrs h treasures" using p2(4) tr1 by simp
  have res2: "arrs h2 result = []" using p1(4) p2(5)[of result] ne by simp
  have o2: "objs h2 = objs h" using p1(3) p2(3) by simp
  let ?idx = "case sc of None \<Rightarrow> 0 | Some p \<Rightarrow> nearestIdx p (deref h2 (arrs h2 remaining))"
  have nonempty: "arrs h treasures \<noteq> []" using False by auto
  have idx: "?idx < length (arrs h2 remaining)"
  proof (cases sc)
    case None
    then show ?thesis using nonempty rem2 by simp
  next
    case (Some p)
    have "deref h2 (arrs h2 remaining) \<noteq> []" using nonempty rem2 by (simp add: deref_def)
    from nearestIdx_less[OF this, of p] show ?thesis using Some by (simp add: length_deref)
  qed
  obtain h3 where h3: "sortWithinMap_loop_h remaining ?idx result h2 = Some h3"
      "objs h3 = objs h2" "nextFree h3 = nextFree h2"
      "\<forall>a. a \<noteq> remaining \<and> a \<noteq> result \<longrightarrow> arrs h3 a = arrs h2 a"
      "deref h3 (arrs h3 result)
         = sortWithinMap_loop (deref h2 (arrs h2 remaining)) ?idx (deref h2 (arrs h2 result))"
      "mset (arrs h3 result) = mset (arrs h2 result) + mset (arrs h2 remaining)"
    using sortWithinMap_loop_h_sim[OF ne idx] by blast
  have run: "sortWithinMap_h treasures sc h = Some (result, h3)"
    using False a1 a2 h3(1) by (simp add: sortWithinMap_h_def Let_def)
  have fr: "frame h h3"
    unfolding frame_def
  proof (intro conjI allI impI)
    show "objs h3 = objs h" using h3(2) o2 by simp
    show "nextFree h \<le> nextFree h3" using h3(3) p1(2) p2(2) by simp
    fix a assume "a < nextFree h"
    then have "a \<noteq> remaining" "a \<noteq> result" using p1(1,2) p2(1) by simp_all
    then show "arrs h3 a = arrs h a" using h3(4) p1(5)[of a] p2(5)[of a] by simp
  qed
  have d2: "deref h2 (arrs h2 remaining) = deref h (arrs h treasures)"
    using rem2 o2 by (simp add: deref_def)
  have d: "deref h3 (arrs h3 result) = sortWithinMap (deref h (arrs h treasures)) sc"
  proof -
    have "sortWithinMap (deref h (arrs h treasures)) sc
          = sortWithinMap_loop (deref h (arrs h treasures))
              (case sc of None \<Rightarrow> 0 | Some p \<Rightarrow> nearestIdx p (deref h (arrs h treasures))) []"
      using False by (simp add: sortWithinMap_def Let_def length_deref)
    moreover have "deref h2 (arrs h2 result) = []" using res2 by (simp add: deref_def)
    ultimately show ?thesis using h3(5) by (simp only: d2)
  qed
  have m: "mset (arrs h3 result) = mset (arrs h treasures)" using h3(6) res2 rem2 by simp
  show ?thesis using run fr d m p1(1,2) p2(2) h3(3)
    by (intro exI[of _ result] exI[of _ h3] conjI) simp_all
qed

lemma fst_viewGroups: "map fst (viewGroups h groups) = map fst groups"
  by (induction groups) (auto simp: viewGroups_def)

lemma map_of_viewGroups_None: "map_of (viewGroups h groups) m = None \<longleftrightarrow> map_of groups m = None"
proof -
  have "fst ` set (viewGroups h groups) = fst ` set groups"
    using fst_viewGroups[of h groups] by (metis list.set_map)
  then show ?thesis by (simp add: map_of_eq_None_iff)
qed

lemma viewGroups_cong:
  "objs h' = objs h \<Longrightarrow> (\<And>k a. (k, a) \<in> set groups \<Longrightarrow> arrs h' a = arrs h a) \<Longrightarrow>
   viewGroups h' groups = viewGroups h groups"
  by (auto simp: viewGroups_def deref_def)

lemma assoc_key_addr:
  assumes "distinct (map fst g)" "distinct (map snd g)" "(m, b) \<in> set g" "(k, c) \<in> set g"
  shows "(k = m) = (c = b)"
proof
  assume "k = m"
  then have "map_of g m = Some c" using assms(1,4) by (simp only: map_of_eq_Some_iff)
  moreover have "map_of g m = Some b" using assms(1,3) by (simp only: map_of_eq_Some_iff)
  ultimately show "c = b" by simp
next
  assume cb: "c = b"
  have "inj_on snd (set g)" using assms(2) by (simp add: distinct_map)
  moreover have "snd (k, c) = snd (m, b)" using cb by simp
  ultimately have "(k, c) = (m, b)" using assms(4,3) by (rule inj_onD)
  then show "k = m" by simp
qed

lemma mset_concat_store:
  "distinct (map snd xs) \<Longrightarrow> b \<in> snd ` set xs \<Longrightarrow>
   mset (concat (map (\<lambda>(k, a). arrs (store b (arrs h b @ [t]) h) a) xs))
   = mset (concat (map (\<lambda>(k, a). arrs h a) xs)) + {#t#}"
proof (induction xs)
  case Nil
  then show ?case by simp
next
  case (Cons e xs)
  obtain k c where kc: "e = (k, c)" by (cases e)
  show ?case
  proof (cases "c = b")
    case True
    then have nb: "b \<notin> snd ` set xs" using Cons.prems(1) kc by auto
    have "\<And>e'. e' \<in> set xs \<Longrightarrow> snd e' \<noteq> b" using nb by auto
    then have "map (\<lambda>(k, a). arrs (store b (arrs h b @ [t]) h) a) xs = map (\<lambda>(k, a). arrs h a) xs"
      by (intro map_cong[OF refl]) (auto simp: store_def)
    then have "concat (map (\<lambda>(k, a). arrs (store b (arrs h b @ [t]) h) a) xs)
               = concat (map (\<lambda>(k, a). arrs h a) xs)"
      by (rule arg_cong)
    then show ?thesis using True kc by (simp add: store_def)
  next
    case False
    then have "b \<in> snd ` set xs" using Cons.prems(2) kc by auto
    then have "mset (concat (map (\<lambda>(k, a). arrs (store b (arrs h b @ [t]) h) a) xs))
               = mset (concat (map (\<lambda>(k, a). arrs h a) xs)) + {#t#}"
      using Cons.IH Cons.prems(1) by simp
    then show ?thesis using False kc by (simp add: store_def)
  qed
qed

lemma groupByMap_step_h_ok:
  assumes inv: "groups_inv h0 groups h"
    and step: "groupByMap_step_h (groups, h) t = (groups', h')"
  shows "groups_inv h0 groups' h'"
    and "viewGroups h' groups' = groupByMap_step (viewGroups h groups) (objs h t)"
    and "mset (concat (map (\<lambda>(k, a). arrs h' a) groups'))
         = mset (concat (map (\<lambda>(k, a). arrs h a) groups)) + {#t#}"
proof -
  let ?m = "mapId (objs h t)"
  have fr: "frame h0 h" and dk: "distinct (map fst groups)" and da: "distinct (map snd groups)"
    and rng: "\<forall>a\<in>snd ` set groups. nextFree h0 \<le> a \<and> a < nextFree h"
    using inv by (simp_all add: groups_inv_def)
  have "groups_inv h0 groups' h'
      \<and> viewGroups h' groups' = groupByMap_step (viewGroups h groups) (objs h t)
      \<and> mset (concat (map (\<lambda>(k, a). arrs h' a) groups'))
         = mset (concat (map (\<lambda>(k, a). arrs h a) groups)) + {#t#}"
  proof (cases "map_of groups ?m")
    case None
    obtain b h1 where al: "alloc [] h = (b, h1)" by (cases "alloc [] h")
    note p = alloc_props[OF al]
    have g': "groups' = groups @ [(?m, b)]" and h': "h' = store b (arrs h1 b @ [t]) h1"
      using step None al by (simp_all add: groupByMap_step_h_def Let_def)
    have old_ne: "\<And>k a. (k, a) \<in> set groups \<Longrightarrow> a \<noteq> b"
    proof -
      fix k a assume "(k, a) \<in> set groups"
      then have "a < nextFree h" using rng by force
      then show "a \<noteq> b" using p(1) by simp
    qed
    have old_eq: "\<And>k a. (k, a) \<in> set groups \<Longrightarrow> arrs h' a = arrs h a"
      using old_ne h' p(5) by (simp add: store_def)
    have bnew: "b \<notin> snd ` set groups" using old_ne by force
    have ob: "objs h' = objs h" using h' p(3) by (simp add: store_def)
    have newb: "arrs h' b = [t]" using h' p(4) by (simp add: store_def)
    have frh: "frame h0 h'"
      using frame_store_fresh[OF frame_trans[OF fr p(6)], of b] h' fr p(1) by (simp add: frame_def)
    have inv': "groups_inv h0 groups' h'"
      unfolding groups_inv_def
    proof (intro conjI)
      show "frame h0 h'" by (rule frh)
      show "distinct (map fst groups')" using g' dk None by (simp add: map_of_eq_None_iff)
      show "distinct (map snd groups')" using g' da bnew by simp
      show "\<forall>a\<in>snd ` set groups'. nextFree h0 \<le> a \<and> a < nextFree h'"
        using g' rng h' p(1,2) fr by (auto simp: store_def frame_def)
    qed
    have v0: "viewGroups h' groups = viewGroups h groups"
      by (rule viewGroups_cong[OF ob]) (rule old_eq)
    have view: "viewGroups h' groups' = groupByMap_step (viewGroups h groups) (objs h t)"
      using None g' v0 newb ob
      by (simp add: groupByMap_step_def bucket_push_def map_of_viewGroups_None)
         (simp add: viewGroups_def deref_def)
    have eqm: "map (\<lambda>(k, a). arrs h' a) groups = map (\<lambda>(k, a). arrs h a) groups"
      using old_eq by (auto intro!: map_cong)
    have "mset (concat (map (\<lambda>(k, a). arrs h' a) groups'))
         = mset (concat (map (\<lambda>(k, a). arrs h' a) groups)) + {#t#}"
      using g' newb by simp
    then have ms: "mset (concat (map (\<lambda>(k, a). arrs h' a) groups'))
         = mset (concat (map (\<lambda>(k, a). arrs h a) groups)) + {#t#}"
      by (simp only: eqm)
    show ?thesis using inv' view ms by (intro conjI)
  next
    case (Some b)
    have g': "groups' = groups" and h': "h' = store b (arrs h b @ [t]) h"
      using step Some by (simp_all add: groupByMap_step_h_def Let_def)
    have mem: "(?m, b) \<in> set groups" using Some by (rule map_of_SomeD)
    have key: "\<And>k c. (k, c) \<in> set groups \<Longrightarrow> (k = ?m) = (c = b)"
      using assoc_key_addr[OF dk da mem] by blast
    have ob: "objs h' = objs h" using h' by (simp add: store_def)
    have brng: "nextFree h0 \<le> b \<and> b < nextFree h" using rng mem by force
    have frh: "frame h0 h'" using frame_store_fresh[OF fr, of b] brng h' by simp
    have inv': "groups_inv h0 groups' h'"
      unfolding groups_inv_def using g' dk da rng frh h' by (simp add: store_def)
    have view: "viewGroups h' groups' = groupByMap_step (viewGroups h groups) (objs h t)"
    proof -
      have nn: "map_of (viewGroups h groups) ?m \<noteq> None"
        using Some by (simp add: map_of_viewGroups_None)
      have "map (\<lambda>(k, c). (k, deref h' (arrs h' c))) groups
            = map ((\<lambda>(k', bucket). if k' = ?m then (k', bucket @ [objs h t]) else (k', bucket))
                    \<circ> (\<lambda>(k, c). (k, deref h (arrs h c)))) groups"
      proof (rule map_cong[OF refl])
        fix e assume e: "e \<in> set groups"
        obtain k c where kc: "e = (k, c)" by (cases e)
        show "(case e of (k, c) \<Rightarrow> (k, deref h' (arrs h' c)))
              = ((\<lambda>(k', bucket). if k' = ?m then (k', bucket @ [objs h t]) else (k', bucket))
                    \<circ> (\<lambda>(k, c). (k, deref h (arrs h c)))) e"
          using key[of k c] e kc h' by (auto simp: store_def deref_def)
      qed
      then show ?thesis using nn g'
        by (simp add: groupByMap_step_def bucket_push_def viewGroups_def)
    qed
    have bmem: "b \<in> snd ` set groups" using mem by force
    have ms: "mset (concat (map (\<lambda>(k, a). arrs h' a) groups'))
         = mset (concat (map (\<lambda>(k, a). arrs h a) groups)) + {#t#}"
      using mset_concat_store[OF da bmem, of h t] by (simp only: g' h')
    show ?thesis using inv' view ms by (intro conjI)
  qed
  then show "groups_inv h0 groups' h'"
    and "viewGroups h' groups' = groupByMap_step (viewGroups h groups) (objs h t)"
    and "mset (concat (map (\<lambda>(k, a). arrs h' a) groups'))
         = mset (concat (map (\<lambda>(k, a). arrs h a) groups)) + {#t#}"
    by simp_all
qed

lemma groupByMap_loop_h_ok:
  assumes alloc: "treasures < nextFree h0"
  shows "groups_inv h0 groups h \<Longrightarrow> i \<le> length (arrs h0 treasures) \<Longrightarrow>
     groupByMap_loop_h treasures i (length (arrs h0 treasures)) (groups, h) = (groups', h') \<Longrightarrow>
     groups_inv h0 groups' h'
     \<and> viewGroups h' groups'
         = foldl groupByMap_step (viewGroups h groups) (deref h0 (drop i (arrs h0 treasures)))
     \<and> mset (concat (map (\<lambda>(k, a). arrs h' a) groups'))
         = mset (concat (map (\<lambda>(k, a). arrs h a) groups)) + mset (drop i (arrs h0 treasures))"
proof (induction "length (arrs h0 treasures) - i" arbitrary: i groups h)
  case 0
  then have i: "i = length (arrs h0 treasures)" using "0.prems"(2) by simp
  have "groupByMap_loop_h treasures i (length (arrs h0 treasures)) (groups, h) = (groups, h)"
    using i by (subst groupByMap_loop_h.simps) simp
  then have "groups' = groups" "h' = h" using "0.prems"(3) by simp_all
  then show ?case using "0.prems"(1) i by (simp add: deref_def)
next
  case (Suc d)
  let ?ts = "arrs h0 treasures"
  have lt: "i < length ?ts" using Suc.hyps(2) by simp
  have fr: "frame h0 h" using Suc.prems(1) by (simp add: groups_inv_def)
  have same: "arrs h treasures = ?ts" using fr alloc by (simp add: frame_def)
  have oh: "objs h = objs h0" using fr by (simp add: frame_def)
  obtain g1 h1 where st: "groupByMap_step_h (groups, h) (?ts ! i) = (g1, h1)"
    by (cases "groupByMap_step_h (groups, h) (?ts ! i)")
  note ok = groupByMap_step_h_ok[OF Suc.prems(1) st]
  have run: "groupByMap_loop_h treasures (i + 1) (length ?ts) (g1, h1) = (groups', h')"
    using Suc.prems(3) lt same st by (subst (asm) groupByMap_loop_h.simps) simp
  have d': "d = length ?ts - (i + 1)" using Suc.hyps(2) by simp
  have le': "i + 1 \<le> length ?ts" using lt by simp
  note ih = Suc.hyps(1)[OF d' ok(1) le' run]
  have dr: "drop i ?ts = ?ts ! i # drop (i + 1) ?ts" using lt by (simp add: Cons_nth_drop_Suc)
  have v: "viewGroups h' groups'
         = foldl groupByMap_step (viewGroups h groups) (deref h0 (drop i ?ts))"
    using ih ok(2) oh by (simp add: dr deref_def)
  have m: "mset (concat (map (\<lambda>(k, a). arrs h' a) groups'))
         = mset (concat (map (\<lambda>(k, a). arrs h a) groups)) + mset (drop i ?ts)"
    using ih ok(3) by (simp add: dr)
  show ?case using ih v m by blast
qed

lemma groupByMap_h_ok:
  assumes "treasures < nextFree h" and "groupByMap_h treasures h = (groups, h')"
  shows "groups_inv h groups h'"
    and "viewGroups h' groups = groupByMap (deref h (arrs h treasures))"
    and "mset (concat (map (\<lambda>(k, a). arrs h' a) groups)) = mset (arrs h treasures)"
proof -
  have inv0: "groups_inv h [] h" by (simp add: groups_inv_def frame_refl)
  have run: "groupByMap_loop_h treasures 0 (length (arrs h treasures)) ([], h) = (groups, h')"
    using assms(2) by (simp add: groupByMap_h_def)
  note r = groupByMap_loop_h_ok[OF assms(1) inv0 _ run]
  show "groups_inv h groups h'" using r by simp
  show "viewGroups h' groups = groupByMap (deref h (arrs h treasures))"
    using r by (simp add: groupByMap_def viewGroups_def)
  show "mset (concat (map (\<lambda>(k, a). arrs h' a) groups)) = mset (arrs h treasures)"
    using r by simp
qed

lemma map_of_viewGroups:
  "map_of (viewGroups h groups) m = map_option (\<lambda>b. deref h (arrs h b)) (map_of groups m)"
  by (induction groups) (auto simp: viewGroups_def)

lemma lookupGroup_viewGroups:
  "map_of groups m = Some b \<Longrightarrow> lookupGroup (viewGroups h groups) m = deref h (arrs h b)"
  by (simp add: lookupGroup_def map_of_viewGroups)

lemma frame_except_store_result:
  "frame h h1 \<Longrightarrow> frame_except {result} h (store result xs h1)"
  by (auto simp: frame_def frame_except_def store_def)

lemma optimize_maps_h_ok:
  "result < nextFree h \<Longrightarrow> \<forall>m\<in>set ids. map_of groups m \<noteq> None \<Longrightarrow>
   \<forall>e\<in>set groups. snd e < nextFree h \<and> snd e \<noteq> result \<Longrightarrow>
   \<exists>lc' h'. optimize_maps_h groups ids result lc h = Some (lc', h')
     \<and> frame_except {result} h h'
     \<and> (deref h' (arrs h' result), lc')
         = optimize_maps (viewGroups h groups) ids (deref h (arrs h result), lc)
     \<and> mset (arrs h' result) = mset (arrs h result) + mset (concat (map (bucketRefs h groups) ids))"
proof (induction ids arbitrary: h lc)
  case Nil
  then show ?case by (simp add: frame_except_refl)
next
  case (Cons m rest)
  obtain b where b: "map_of groups m = Some b" using Cons.prems(2) by auto
  then have bin: "(m, b) \<in> set groups" by (rule map_of_SomeD)
  then have bl: "b < nextFree h" "b \<noteq> result" using Cons.prems(3) by force+
  obtain sortedArr h1 where s: "sortWithinMap_h b lc h = Some (sortedArr, h1)"
      "frame h h1" "nextFree h \<le> sortedArr" "sortedArr < nextFree h1"
      "deref h1 (arrs h1 sortedArr) = sortWithinMap (deref h (arrs h b)) lc"
      "mset (arrs h1 sortedArr) = mset (arrs h b)"
    using sortWithinMap_h_ok[OF bl(1), of lc] by blast
  let ?h2 = "store result (arrs h1 result @ arrs h1 sortedArr) h1"
  let ?lc' = "if length (arrs ?h2 sortedArr) > 0
              then Some (coords (objs ?h2 (last (arrs ?h2 sortedArr)))) else lc"
  have ne: "sortedArr \<noteq> result" using s(3) Cons.prems(1) by simp
  have o1: "objs h1 = objs h" and n1: "nextFree h \<le> nextFree h1"
    and a1: "\<And>a. a < nextFree h \<Longrightarrow> arrs h1 a = arrs h a"
    using s(2) by (simp_all add: frame_def)
  have o2: "objs ?h2 = objs h" using o1 by (simp add: store_def)
  have res2: "arrs ?h2 result = arrs h result @ arrs h1 sortedArr"
    using a1[OF Cons.prems(1)] by (simp add: store_def)
  have sorted2: "arrs ?h2 sortedArr = arrs h1 sortedArr" using ne by (simp add: store_def)
  have fe: "frame_except {result} h ?h2" using s(2) by (rule frame_except_store_result)
  have buckets2: "\<And>e. e \<in> set groups \<Longrightarrow> arrs ?h2 (snd e) = arrs h (snd e)"
  proof -
    fix e assume e: "e \<in> set groups"
    then have "snd e < nextFree h" "snd e \<noteq> result" using Cons.prems(3) by auto
    then show "arrs ?h2 (snd e) = arrs h (snd e)" using a1 by (simp add: store_def)
  qed
  have view2: "viewGroups ?h2 groups = viewGroups h groups"
    by (rule viewGroups_cong[OF o2]) (use buckets2 in force)
  have refs2: "bucketRefs ?h2 groups = bucketRefs h groups"
  proof
    fix x show "bucketRefs ?h2 groups x = bucketRefs h groups x"
    proof (cases "map_of groups x")
      case None
      then show ?thesis by (simp add: bucketRefs_def)
    next
      case (Some c)
      then have "(x, c) \<in> set groups" by (rule map_of_SomeD)
      from buckets2[OF this] show ?thesis using Some by (simp add: bucketRefs_def)
    qed
  qed
  have p1: "result < nextFree ?h2" using Cons.prems(1) n1 by (simp add: store_def)
  have p2: "\<forall>m\<in>set rest. map_of groups m \<noteq> None" using Cons.prems(2) by simp
  have p3: "\<forall>e\<in>set groups. snd e < nextFree ?h2 \<and> snd e \<noteq> result"
    using Cons.prems(3) n1 by (auto simp: store_def)
  obtain lc2 h' where r: "optimize_maps_h groups rest result ?lc' ?h2 = Some (lc2, h')"
      "frame_except {result} ?h2 h'"
      "(deref h' (arrs h' result), lc2)
         = optimize_maps (viewGroups ?h2 groups) rest (deref ?h2 (arrs ?h2 result), ?lc')"
      "mset (arrs h' result) = mset (arrs ?h2 result) + mset (concat (map (bucketRefs ?h2 groups) rest))"
    using Cons.IH[OF p1 p2 p3, of ?lc'] by blast
  have run: "optimize_maps_h groups (m # rest) result lc h = Some (lc2, h')"
    using b s(1) r(1) by (simp add: Let_def)
  have fr: "frame_except {result} h h'" using fe r(2) by (rule frame_except_trans)
  have sortedeq: "deref ?h2 (arrs ?h2 sortedArr) = sortWithinMap (lookupGroup (viewGroups h groups) m) lc"
    using s(5) sorted2 o1 b by (simp add: lookupGroup_viewGroups deref_def store_def)
  have lceq: "?lc' = (if length (sortWithinMap (lookupGroup (viewGroups h groups) m) lc) > 0
                      then Some (coords (last (sortWithinMap (lookupGroup (viewGroups h groups) m) lc)))
                      else lc)"
  proof (cases "arrs ?h2 sortedArr = []")
    case True
    then show ?thesis using sortedeq by (simp add: deref_def)
  next
    case False
    have "last (deref ?h2 (arrs ?h2 sortedArr)) = objs ?h2 (last (arrs ?h2 sortedArr))"
      using False by (simp add: deref_def last_map)
    then show ?thesis using False sortedeq by (metis length_deref)
  qed
  have reseq: "deref ?h2 (arrs ?h2 result)
        = deref h (arrs h result) @ sortWithinMap (lookupGroup (viewGroups h groups) m) lc"
    using res2 sortedeq sorted2 o2 by (simp add: deref_def)
  have pure: "(deref h' (arrs h' result), lc2)
         = optimize_maps (viewGroups h groups) (m # rest) (deref h (arrs h result), lc)"
    using r(3) by (simp only: view2 reseq lceq optimize_maps.simps Let_def)
  have ms: "mset (arrs h' result)
        = mset (arrs h result) + mset (concat (map (bucketRefs h groups) (m # rest)))"
    using r(4) res2 s(6) b by (simp add: refs2 bucketRefs_def)
  show ?case using run fr pure ms by (intro exI[of _ lc2] exI[of _ h'] conjI)
qed

lemma deref_reverseSegment: "deref h (reverseSegment xs i k) = reverseSegment (deref h xs) i k"
  by (simp add: deref_def reverseSegment_def js_slice_def take_map drop_map rev_map)

lemma reverseSegment_h_ok:
  assumes "route < nextFree h" and "reverseSegment_h route i k h = (r', h')"
  shows "frame h h'" "nextFree h \<le> r'" "r' < nextFree h'"
    "arrs h' r' = reverseSegment (arrs h route) i k"
proof -
  obtain reversed h1 where a1: "alloc (js_slice (arrs h route) (i + 1) (k + 1)) h = (reversed, h1)"
    by (cases "alloc (js_slice (arrs h route) (i + 1) (k + 1)) h")
  let ?h2 = "store reversed (rev (arrs h1 reversed)) h1"
  obtain front h3 where a3: "alloc (js_slice (arrs ?h2 route) 0 (i + 1)) ?h2 = (front, h3)"
    by (cases "alloc (js_slice (arrs ?h2 route) 0 (i + 1)) ?h2")
  obtain backArr h4 where a4: "alloc (drop (k + 1) (arrs h3 route)) h3 = (backArr, h4)"
    by (cases "alloc (drop (k + 1) (arrs h3 route)) h3")
  obtain r5 h5 where a5: "alloc (arrs h4 front @ arrs h4 reversed @ arrs h4 backArr) h4 = (r5, h5)"
    by (cases "alloc (arrs h4 front @ arrs h4 reversed @ arrs h4 backArr) h4")
  note p1 = alloc_props[OF a1] and p3 = alloc_props[OF a3] and p4 = alloc_props[OF a4]
    and p5 = alloc_props[OF a5]
  have res: "r' = r5" "h' = h5" using assms(2) a1 a3 a4 a5 by (simp_all add: reverseSegment_h_def Let_def)
  have n2: "nextFree ?h2 = nextFree h + 1" using p1(2) by (simp add: store_def)
  have ad: "reversed = nextFree h" "front = nextFree h + 1" "backArr = nextFree h + 2" "r5 = nextFree h + 3"
    "nextFree h5 = nextFree h + 4"
    using p1(1) p3(1,2) p4(1,2) p5(1,2) n2 by simp_all
  have rt1: "arrs h1 route = arrs h route" using p1(5)[of route] ad(1) assms(1) by simp
  have rt2: "arrs ?h2 route = arrs h route" using rt1 ad(1) assms(1) by (simp add: store_def)
  have rt3: "arrs h3 route = arrs h route" using p3(5)[of route] rt2 ad(2) assms(1) by simp
  have rev2: "arrs ?h2 reversed = rev (js_slice (arrs h route) (i + 1) (k + 1))"
    using p1(4) by (simp add: store_def)
  have rev4: "arrs h4 reversed = rev (js_slice (arrs h route) (i + 1) (k + 1))"
    using p4(5)[of reversed] p3(5)[of reversed] rev2 ad(1,2,3) by simp
  have front4: "arrs h4 front = js_slice (arrs h route) 0 (i + 1)"
    using p4(5)[of front] p3(4) rt2 ad(2,3) by simp
  have bk4: "arrs h4 backArr = drop (k + 1) (arrs h route)" using p4(4) rt3 by simp
  show "arrs h' r' = reverseSegment (arrs h route) i k"
    using res p5(4) front4 rev4 bk4 by (simp add: reverseSegment_def)
  show "nextFree h \<le> r'" using res ad by simp
  show "r' < nextFree h'" using res ad by simp
  show "frame h h'"
    unfolding frame_def
  proof (intro conjI allI impI)
    show "objs h' = objs h" using res p1(3) p3(3) p4(3) p5(3) by (simp add: store_def)
    show "nextFree h \<le> nextFree h'" using res ad by simp
    fix a assume a: "a < nextFree h"
    then have "arrs h1 a = arrs h a" using p1(5)[of a] ad(1) by simp
    then have "arrs ?h2 a = arrs h a" using a ad(1) by (simp add: store_def)
    then have "arrs h3 a = arrs h a" using p3(5)[of a] a ad(2) by simp
    then have "arrs h4 a = arrs h a" using p4(5)[of a] a ad(3) by simp
    then have "arrs h5 a = arrs h a" using p5(5)[of a] a ad(4) by simp
    then show "arrs h' a = arrs h a" using res by simp
  qed
qed

lemma improve2Opt_k_h_ok:
  "route < nextFree h \<Longrightarrow> i \<le> k \<Longrightarrow>
   \<exists>route' b' h'. improve2Opt_k_h i k (route, improved, h) = Some (route', b', h')
     \<and> frame h h' \<and> route' < nextFree h'
     \<and> (deref h' (arrs h' route'), b') = improve2Opt_k i k (deref h (arrs h route), improved)
     \<and> mset (arrs h' route') = mset (arrs h route) \<and> route \<le> route'"
proof (induction "length (arrs h route) - k" arbitrary: k route improved h)
  case 0
  then have nk: "\<not> k < length (arrs h route)" by simp
  have "improve2Opt_k_h i k (route, improved, h) = Some (route, improved, h)"
    using nk by (subst improve2Opt_k_h.simps) simp
  moreover have "improve2Opt_k i k (deref h (arrs h route), improved) = (deref h (arrs h route), improved)"
    using nk by (subst improve2Opt_k.simps) (simp add: length_deref)
  ultimately show ?case using "0.prems"(1)
    by (intro exI[of _ route] exI[of _ improved] exI[of _ h] conjI) (simp_all add: frame_refl)
next
  case (Suc d)
  let ?r = "deref h (arrs h route)"
  let ?d1 = "calcDistance (coords (?r ! i)) (coords (?r ! (i + 1)))"
  let ?d2 = "calcDistance (coords (?r ! k)) (coords (?r ! ((k + 1) mod length ?r)))"
  let ?d3 = "calcDistance (coords (?r ! i)) (coords (?r ! k))"
  let ?d4 = "calcDistance (coords (?r ! (i + 1))) (coords (?r ! ((k + 1) mod length ?r)))"
  have lt: "k < length (arrs h route)" using Suc.hyps(2) by simp
  have ik1: "i \<le> k + 1" using Suc.prems(2) by simp
  show ?case
  proof (cases "js_lt (js_add ?d3 ?d4) (js_add ?d1 ?d2)")
    case True
    obtain r1 h1 where rs: "reverseSegment_h route i k h = (r1, h1)"
      by (cases "reverseSegment_h route i k h")
    note p = reverseSegment_h_ok[OF Suc.prems(1) rs]
    have len1: "length (arrs h1 r1) = length (arrs h route)"
      using p(4) length_reverseSegment[OF lt Suc.prems(2)] by simp
    have d': "d = length (arrs h1 r1) - (k + 1)" using Suc.hyps(2) len1 by simp
    obtain route' b' h' where ih: "improve2Opt_k_h i (k + 1) (r1, True, h1) = Some (route', b', h')"
        "frame h1 h'" "route' < nextFree h'"
        "(deref h' (arrs h' route'), b') = improve2Opt_k i (k + 1) (deref h1 (arrs h1 r1), True)"
        "mset (arrs h' route') = mset (arrs h1 r1)" "r1 \<le> route'"
      using Suc.hyps(1)[OF d' p(3) ik1, of True] by blast
    have le: "route \<le> route'" using Suc.prems(1) p(2) ih(6) by simp
    have run: "improve2Opt_k_h i k (route, improved, h) = Some (route', b', h')"
      using lt True rs ih(1) by (subst improve2Opt_k_h.simps) (simp add: Let_def)
    have o1: "objs h1 = objs h" using p(1) by (simp add: frame_def)
    have dr1: "deref h1 (arrs h1 r1) = reverseSegment ?r i k"
      by (simp only: p(4) deref_objs[OF o1] deref_reverseSegment)
    have pure: "improve2Opt_k i k (?r, improved) = improve2Opt_k i (k + 1) (reverseSegment ?r i k, True)"
      using lt True by (subst improve2Opt_k.simps) (simp add: Let_def length_deref)
    have ms: "mset (arrs h' route') = mset (arrs h route)"
      using ih(5) p(4) mset_reverseSegment[OF Suc.prems(2)] by simp
    show ?thesis
      using run frame_trans[OF p(1) ih(2)] ih(3) ih(4) dr1 pure ms le
      by (intro exI[of _ route'] exI[of _ b'] exI[of _ h'] conjI) simp_all
  next
    case False
    have d': "d = length (arrs h route) - (k + 1)" using Suc.hyps(2) by simp
    obtain route' b' h' where ih: "improve2Opt_k_h i (k + 1) (route, improved, h) = Some (route', b', h')"
        "frame h h'" "route' < nextFree h'"
        "(deref h' (arrs h' route'), b') = improve2Opt_k i (k + 1) (?r, improved)"
        "mset (arrs h' route') = mset (arrs h route)" "route \<le> route'"
      using Suc.hyps(1)[OF d' Suc.prems(1) ik1, of improved] by blast
    have run: "improve2Opt_k_h i k (route, improved, h) = Some (route', b', h')"
      using lt False ih(1) by (subst improve2Opt_k_h.simps) (simp add: Let_def)
    have pure: "improve2Opt_k i k (?r, improved) = improve2Opt_k i (k + 1) (?r, improved)"
      using lt False by (subst improve2Opt_k.simps) (simp add: Let_def length_deref)
    show ?thesis
      using run ih(2) ih(3) ih(4) pure ih(5) ih(6)
      by (intro exI[of _ route'] exI[of _ b'] exI[of _ h'] conjI) simp_all
  qed
qed

lemma improve2Opt_i_h_ok:
  "route < nextFree h \<Longrightarrow>
   \<exists>route' b' h'. improve2Opt_i_h i (route, improved, h) = Some (route', b', h')
     \<and> frame h h' \<and> route' < nextFree h'
     \<and> (deref h' (arrs h' route'), b') = improve2Opt_i i (deref h (arrs h route), improved)
     \<and> mset (arrs h' route') = mset (arrs h route) \<and> route \<le> route'"
proof (induction "length (arrs h route) - i" arbitrary: i route improved h)
  case 0
  then have ni: "\<not> i + 2 < length (arrs h route)" by simp
  have "improve2Opt_i_h i (route, improved, h) = Some (route, improved, h)"
    using ni by (subst improve2Opt_i_h.simps) simp
  moreover have "improve2Opt_i i (deref h (arrs h route), improved) = (deref h (arrs h route), improved)"
    using ni by (subst improve2Opt_i.simps) (simp add: length_deref)
  ultimately show ?case using "0.prems"
    by (intro exI[of _ route] exI[of _ improved] exI[of _ h] conjI) (simp_all add: frame_refl)
next
  case (Suc d)
  let ?r = "deref h (arrs h route)"
  show ?case
  proof (cases "i + 2 < length (arrs h route)")
    case False
    have "improve2Opt_i_h i (route, improved, h) = Some (route, improved, h)"
      using False by (subst improve2Opt_i_h.simps) simp
    moreover have "improve2Opt_i i (?r, improved) = (?r, improved)"
      using False by (subst improve2Opt_i.simps) (simp add: length_deref)
    ultimately show ?thesis using Suc.prems
      by (intro exI[of _ route] exI[of _ improved] exI[of _ h] conjI) (simp_all add: frame_refl)
  next
    case True
    obtain r1 b1 h1 where k: "improve2Opt_k_h i (i + 2) (route, improved, h) = Some (r1, b1, h1)"
        "frame h h1" "r1 < nextFree h1"
        "(deref h1 (arrs h1 r1), b1) = improve2Opt_k i (i + 2) (?r, improved)"
        "mset (arrs h1 r1) = mset (arrs h route)" "route \<le> r1"
      using improve2Opt_k_h_ok[OF Suc.prems, of i "i + 2" improved] by auto
    have len1: "length (arrs h1 r1) = length (arrs h route)" using k(5) by (rule mset_eq_length)
    have d': "d = length (arrs h1 r1) - (i + 1)" using Suc.hyps(2) len1 by simp
    obtain route' b' h' where ih: "improve2Opt_i_h (i + 1) (r1, b1, h1) = Some (route', b', h')"
        "frame h1 h'" "route' < nextFree h'"
        "(deref h' (arrs h' route'), b') = improve2Opt_i (i + 1) (deref h1 (arrs h1 r1), b1)"
        "mset (arrs h' route') = mset (arrs h1 r1)" "r1 \<le> route'"
      using Suc.hyps(1)[OF d' k(3), of b1] by blast
    have le: "route \<le> route'" using k(6) ih(6) by simp
    have run: "improve2Opt_i_h i (route, improved, h) = Some (route', b', h')"
      using True k(1) ih(1) by (subst improve2Opt_i_h.simps) simp
    have pure: "improve2Opt_i i (?r, improved) = improve2Opt_i (i + 1) (deref h1 (arrs h1 r1), b1)"
      using True k(4)[symmetric] by (subst improve2Opt_i.simps) (simp add: length_deref)
    show ?thesis
      using run frame_trans[OF k(2) ih(2)] ih(3) ih(4) pure ih(5) k(5) le
      by (intro exI[of _ route'] exI[of _ b'] exI[of _ h'] conjI) simp_all
  qed
qed

lemma improve2Opt_while_h_ok:
  "route < nextFree h \<Longrightarrow>
   \<exists>route' h'. improve2Opt_while_h maxIterations route improved iteration h = Some (route', h')
     \<and> frame h h' \<and> route' < nextFree h'
     \<and> deref h' (arrs h' route')
         = improve2Opt_while maxIterations (deref h (arrs h route)) improved iteration
     \<and> mset (arrs h' route') = mset (arrs h route) \<and> route \<le> route'"
proof (induction "maxIterations - iteration" arbitrary: iteration route improved h)
  case 0
  then have stop: "\<not> (improved \<and> iteration < maxIterations)" by simp
  have "improve2Opt_while_h maxIterations route improved iteration h = Some (route, h)"
    using stop by (subst improve2Opt_while_h.simps) auto
  moreover have "improve2Opt_while maxIterations (deref h (arrs h route)) improved iteration
                 = deref h (arrs h route)"
    using stop by (subst improve2Opt_while.simps) auto
  ultimately show ?case using "0.prems"
    by (intro exI[of _ route] exI[of _ h] conjI) (simp_all add: frame_refl)
next
  case (Suc d)
  show ?case
  proof (cases "improved \<and> iteration < maxIterations")
    case False
    have "improve2Opt_while_h maxIterations route improved iteration h = Some (route, h)"
      using False by (subst improve2Opt_while_h.simps) auto
    moreover have "improve2Opt_while maxIterations (deref h (arrs h route)) improved iteration
                 = deref h (arrs h route)"
      using False by (subst improve2Opt_while.simps) auto
    ultimately show ?thesis using Suc.prems
      by (intro exI[of _ route] exI[of _ h] conjI) (simp_all add: frame_refl)
  next
    case True
    obtain r1 b1 h1 where p: "improve2Opt_i_h 0 (route, False, h) = Some (r1, b1, h1)"
        "frame h h1" "r1 < nextFree h1"
        "(deref h1 (arrs h1 r1), b1) = improve2Opt_i 0 (deref h (arrs h route), False)"
        "mset (arrs h1 r1) = mset (arrs h route)" "route \<le> r1"
      using improve2Opt_i_h_ok[OF Suc.prems, of 0 False] by auto
    have d': "d = maxIterations - (iteration + 1)" using Suc.hyps(2) by simp
    obtain route' h' where ih:
        "improve2Opt_while_h maxIterations r1 b1 (iteration + 1) h1 = Some (route', h')"
        "frame h1 h'" "route' < nextFree h'"
        "deref h' (arrs h' route')
         = improve2Opt_while maxIterations (deref h1 (arrs h1 r1)) b1 (iteration + 1)"
        "mset (arrs h' route') = mset (arrs h1 r1)" "r1 \<le> route'"
      using Suc.hyps(1)[OF d' p(3), of b1] by blast
    have le: "route \<le> route'" using p(6) ih(6) by simp
    have run: "improve2Opt_while_h maxIterations route improved iteration h = Some (route', h')"
      using True p(1) ih(1) by (subst improve2Opt_while_h.simps) simp
    have pure: "improve2Opt_while maxIterations (deref h (arrs h route)) improved iteration
                = improve2Opt_while maxIterations (deref h1 (arrs h1 r1)) b1 (iteration + 1)"
      using True p(4)[symmetric] by (subst improve2Opt_while.simps) simp
    show ?thesis
      using run frame_trans[OF p(2) ih(2)] ih(3) ih(4) pure ih(5) p(5) le
      by (intro exI[of _ route'] exI[of _ h'] conjI) simp_all
  qed
qed

lemma improve2Opt_h_ok:
  assumes "treasures < nextFree h"
  shows "\<exists>res h'. improve2Opt_h treasures maxIterations h = Some (res, h')
     \<and> frame h h' \<and> nextFree h \<le> res \<and> res < nextFree h'
     \<and> deref h' (arrs h' res) = improve2Opt (deref h (arrs h treasures)) maxIterations
     \<and> mset (arrs h' res) = mset (arrs h treasures)"
proof -
  obtain route h1 where al: "alloc (arrs h treasures) h = (route, h1)"
    by (cases "alloc (arrs h treasures) h")
  note p = alloc_props[OF al]
  have r1: "route < nextFree h1" using p(1,2) by simp
  have d1: "deref h1 (arrs h1 route) = deref h (arrs h treasures)"
    using p(3,4) by (simp add: deref_def)
  show ?thesis
  proof (cases "length (arrs h treasures) \<le> 3")
    case True
    have run: "improve2Opt_h treasures maxIterations h = Some (route, h1)"
      using True al by (simp add: improve2Opt_h_def)
    have pure: "improve2Opt (deref h (arrs h treasures)) maxIterations = deref h (arrs h treasures)"
      using True by (simp add: improve2Opt_def length_deref)
    show ?thesis using run p(6) p(1) r1 d1 pure p(4)
      by (intro exI[of _ route] exI[of _ h1] conjI) simp_all
  next
    case False
    obtain res h' where w: "improve2Opt_while_h maxIterations route True 0 h1 = Some (res, h')"
        "frame h1 h'" "res < nextFree h'"
        "deref h' (arrs h' res) = improve2Opt_while maxIterations (deref h1 (arrs h1 route)) True 0"
        "mset (arrs h' res) = mset (arrs h1 route)" "route \<le> res"
      using improve2Opt_while_h_ok[OF r1, of maxIterations True 0] by blast
    have run: "improve2Opt_h treasures maxIterations h = Some (res, h')"
      using False al w(1) by (simp add: improve2Opt_h_def)
    have pure: "improve2Opt (deref h (arrs h treasures)) maxIterations
                = improve2Opt_while maxIterations (deref h (arrs h treasures)) True 0"
      using False by (simp add: improve2Opt_def length_deref)
    have fresh: "nextFree h \<le> res" using p(1) w(6) by simp
    show ?thesis using run frame_trans[OF p(6) w(2)] fresh w(3) w(4) d1 pure w(5) p(4)
      by (intro exI[of _ res] exI[of _ h'] conjI) simp_all
  qed
qed

lemma frame_then_except:
  "frame h0 h \<Longrightarrow> frame_except {r} h h' \<Longrightarrow> nextFree h0 \<le> r \<Longrightarrow> frame h0 h'"
  by (auto simp: frame_def frame_except_def)

lemma bucketRefs_keys:
  assumes "distinct (map fst groups)"
  shows "map (bucketRefs h groups) (map fst groups) = map (\<lambda>(k, a). arrs h a) groups"
proof -
  have "\<And>k a. (k, a) \<in> set groups \<Longrightarrow> bucketRefs h groups k = arrs h a"
  proof -
    fix k a assume "(k, a) \<in> set groups"
    then have "map_of groups k = Some a" using assms by (simp only: map_of_eq_Some_iff)
    then show "bucketRefs h groups k = arrs h a" by (simp add: bucketRefs_def)
  qed
  then show ?thesis by auto
qed

lemma grouped_h_ok:
  assumes ts: "ts < nextFree h" and g: "groupByMap_h ts h = (groups, h1)"
    and al: "alloc [] h1 = (result, h2)"
  shows "\<exists>lc h3. optimize_maps_h groups (sortMaps (viewGroups h1 groups) sm) result sc h2 = Some (lc, h3)
     \<and> frame h h3 \<and> nextFree h \<le> result \<and> result < nextFree h3
     \<and> deref h3 (arrs h3 result)
         = fst (optimize_maps (groupByMap (deref h (arrs h ts)))
                  (sortMaps (groupByMap (deref h (arrs h ts))) sm) ([], sc))
     \<and> mset (arrs h3 result) = mset (arrs h ts)"
proof -
  note gi = groupByMap_h_ok[OF ts g]
  note p = alloc_props[OF al]
  let ?ids = "sortMaps (viewGroups h1 groups) sm"
  have fr1: "frame h h1" and dk: "distinct (map fst groups)"
    and bk: "\<And>k a. (k, a) \<in> set groups \<Longrightarrow> nextFree h \<le> a \<and> a < nextFree h1"
    using gi(1) by (force simp: groups_inv_def)+
  have n01: "nextFree h \<le> nextFree h1" using fr1 by (simp add: frame_def)
  have r2: "result < nextFree h2" using p(1,2) by simp
  have b2: "\<And>k a. (k, a) \<in> set groups \<Longrightarrow> arrs h2 a = arrs h1 a"
  proof -
    fix k a assume "(k, a) \<in> set groups"
    from bk[OF this] have "a \<noteq> result" using p(1) by simp
    then show "arrs h2 a = arrs h1 a" by (rule p(5))
  qed
  have view2: "viewGroups h2 groups = viewGroups h1 groups"
    by (rule viewGroups_cong[OF p(3)]) (rule b2)
  have "set ?ids = set (map fst groups)"
    using mset_sortMaps[of "viewGroups h1 groups" sm] mset_objectKeys[of "viewGroups h1 groups"]
    by (metis fst_viewGroups mset_eq_setD)
  then have keys: "\<forall>m\<in>set ?ids. map_of groups m \<noteq> None"
    by (auto simp: map_of_eq_None_iff)
  have addrs: "\<forall>e\<in>set groups. snd e < nextFree h2 \<and> snd e \<noteq> result"
  proof
    fix e assume "e \<in> set groups"
    then have "(fst e, snd e) \<in> set groups" by simp
    from bk[OF this] show "snd e < nextFree h2 \<and> snd e \<noteq> result" using p(1,2) by simp
  qed
  obtain lc h3 where r: "optimize_maps_h groups ?ids result sc h2 = Some (lc, h3)"
      "frame_except {result} h2 h3"
      "(deref h3 (arrs h3 result), lc)
         = optimize_maps (viewGroups h2 groups) ?ids (deref h2 (arrs h2 result), sc)"
      "mset (arrs h3 result) = mset (arrs h2 result) + mset (concat (map (bucketRefs h2 groups) ?ids))"
    using optimize_maps_h_ok[OF r2 keys addrs, of sc] by blast
  have fr3: "frame h h3"
    using frame_then_except[OF frame_trans[OF fr1 p(6)] r(2)] n01 p(1) by simp
  have fresh: "nextFree h \<le> result" using n01 p(1) by simp
  have lt3: "result < nextFree h3" using r2 r(2) by (simp add: frame_except_def)
  have e2: "deref h2 (arrs h2 result) = []" using p(4) by (simp add: deref_def)
  have pure: "deref h3 (arrs h3 result)
         = fst (optimize_maps (groupByMap (deref h (arrs h ts)))
                  (sortMaps (groupByMap (deref h (arrs h ts))) sm) ([], sc))"
    using r(3)[symmetric] by (simp only: view2 gi(2) e2 fst_conv)
  have "mset ?ids = mset (map fst groups)"
    using mset_sortMaps[of "viewGroups h1 groups" sm] mset_objectKeys[of "viewGroups h1 groups"]
    by (simp only: fst_viewGroups)
  then have "mset (concat (map (bucketRefs h2 groups) ?ids))
             = mset (concat (map (bucketRefs h2 groups) (map fst groups)))"
    by (rule mset_concat_perm)
  also have "\<dots> = mset (concat (map (\<lambda>(k, a). arrs h2 a) groups))"
    by (simp only: bucketRefs_keys[OF dk])
  also have "map (\<lambda>(k, a). arrs h2 a) groups = map (\<lambda>(k, a). arrs h1 a) groups"
    using b2 by auto
  finally have "mset (concat (map (bucketRefs h2 groups) ?ids)) = mset (arrs h ts)"
    using gi(3) by simp
  then have ms: "mset (arrs h3 result) = mset (arrs h ts)" using r(4) p(4) by simp
  show ?thesis using r(1) fr3 fresh lt3 pure ms
    by (intro exI[of _ lc] exI[of _ h3] conjI)
qed

lemma optimize_h_absent:
  "optimize_h None opts h = Some (nextFree h, h\<lparr>arrs := (arrs h)(nextFree h := []), nextFree := nextFree h + 1\<rparr>)"
  by (simp add: optimize_h_def alloc_def)

lemma optimize_h_ok:
  assumes ts: "ts < nextFree h"
  shows "\<exists>res h'. optimize_h (Some ts) opts h = Some (res, h')
     \<and> frame h h' \<and> nextFree h \<le> res \<and> res < nextFree h'
     \<and> deref h' (arrs h' res) = optimize (Some (deref h (arrs h ts))) opts
     \<and> mset (arrs h' res) = mset (arrs h ts)"
proof (cases "length (arrs h ts) \<le> 1")
  case True
  obtain a h' where al: "alloc (arrs h ts) h = (a, h')" by (cases "alloc (arrs h ts) h")
  note p = alloc_props[OF al]
  have run: "optimize_h (Some ts) opts h = Some (a, h')" using True al by (simp add: optimize_h_def)
  have pure: "optimize (Some (deref h (arrs h ts))) opts = deref h (arrs h ts)"
    using True by (simp add: optimize_def length_deref)
  have d: "deref h' (arrs h' a) = deref h (arrs h ts)" using p(3,4) by (simp add: deref_def)
  show ?thesis using run p(6) p(1) p(2) d pure p(4)
    by (intro exI[of _ a] exI[of _ h'] conjI) simp_all
next
  case False
  let ?ts = "deref h (arrs h ts)"
  let ?sc = "map_option coords (startTreasure opts)"
  let ?sm = "map_option mapId (startTreasure opts)"
  let ?phase1 = "if withDefault True (useMapGrouping opts) then
                     (case groupByMap_h ts h of
                        (groups, h1) \<Rightarrow>
                          (let startMapId = map_option mapId (startTreasure opts);
                               sortedMapIds = sortMaps (viewGroups h1 groups) startMapId
                           in case alloc [] h1 of
                                (result, h2) \<Rightarrow>
                                  (case optimize_maps_h groups sortedMapIds result
                                          (map_option coords (startTreasure opts)) h2 of
                                     None \<Rightarrow> None
                                   | Some (lastCoords, h3) \<Rightarrow> Some (result, h3))))
                   else sortWithinMap_h ts (map_option coords (startTreasure opts)) h"
  let ?pure1 = "if withDefault True (useMapGrouping opts) then
                  fst (optimize_maps (groupByMap ?ts) (sortMaps (groupByMap ?ts) ?sm) ([], ?sc))
                else sortWithinMap ?ts ?sc"
  have "\<exists>result h4. ?phase1 = Some (result, h4) \<and> frame h h4 \<and> nextFree h \<le> result
          \<and> result < nextFree h4 \<and> deref h4 (arrs h4 result) = ?pure1
          \<and> mset (arrs h4 result) = mset (arrs h ts)"
  proof (cases "withDefault True (useMapGrouping opts)")
    case True
    obtain groups h1 where g: "groupByMap_h ts h = (groups, h1)" by (cases "groupByMap_h ts h")
    obtain result h2 where al: "alloc [] h1 = (result, h2)" by (cases "alloc [] h1")
    obtain lc h3 where r:
        "optimize_maps_h groups (sortMaps (viewGroups h1 groups) ?sm) result ?sc h2 = Some (lc, h3)"
        "frame h h3" "nextFree h \<le> result" "result < nextFree h3"
        "deref h3 (arrs h3 result)
           = fst (optimize_maps (groupByMap ?ts) (sortMaps (groupByMap ?ts) ?sm) ([], ?sc))"
        "mset (arrs h3 result) = mset (arrs h ts)"
      using grouped_h_ok[OF ts g al, of ?sm ?sc] by blast
    have run: "?phase1 = Some (result, h3)" using True g al r(1) by (simp add: Let_def)
    show ?thesis using run r(2-6) True
      by (intro exI[of _ result] exI[of _ h3] conjI) simp_all
  next
    case False
    obtain res h' where s: "sortWithinMap_h ts ?sc h = Some (res, h')"
        "frame h h'" "nextFree h \<le> res" "res < nextFree h'"
        "deref h' (arrs h' res) = sortWithinMap ?ts ?sc"
        "mset (arrs h' res) = mset (arrs h ts)"
      using sortWithinMap_h_ok[OF ts, of ?sc] by blast
    show ?thesis using s False
      by (intro exI[of _ res] exI[of _ h'] conjI) simp_all
  qed
  then obtain result h4 where p1: "?phase1 = Some (result, h4)" "frame h h4" "nextFree h \<le> result"
      "result < nextFree h4" "deref h4 (arrs h4 result) = ?pure1"
      "mset (arrs h4 result) = mset (arrs h ts)"
    by (elim exE conjE)
  have run1: "optimize_h (Some ts) opts h
              = (if withDefault False (use2Opt opts) then improve2Opt_h result 50 h4
                 else Some (result, h4))"
    using False by (simp add: optimize_h_def p1(1) del: split_paired_Ex)
  have pure1: "optimize (Some ?ts) opts
               = (if withDefault False (use2Opt opts) then improve2Opt ?pure1 50 else ?pure1)"
    using False by (simp add: optimize_def Let_def length_deref)
  show ?thesis
  proof (cases "withDefault False (use2Opt opts)")
    case True
    obtain res h' where o: "improve2Opt_h result 50 h4 = Some (res, h')"
        "frame h4 h'" "nextFree h4 \<le> res" "res < nextFree h'"
        "deref h' (arrs h' res) = improve2Opt (deref h4 (arrs h4 result)) 50"
        "mset (arrs h' res) = mset (arrs h4 result)"
      using improve2Opt_h_ok[OF p1(4), of 50] by blast
    have n: "nextFree h \<le> nextFree h4" using p1(2) by (simp add: frame_def)
    have run: "optimize_h (Some ts) opts h = Some (res, h')" using run1 True o(1) by simp
    have pure: "optimize (Some ?ts) opts = improve2Opt ?pure1 50" using pure1 True by simp
    have fresh: "nextFree h \<le> res" using n o(3) by simp
    have d: "deref h' (arrs h' res) = optimize (Some ?ts) opts"
      by (simp only: o(5) p1(5) pure)
    have ms: "mset (arrs h' res) = mset (arrs h ts)" using o(6) p1(6) by simp
    show ?thesis using run frame_trans[OF p1(2) o(2)] fresh o(4) d ms
      by (intro exI[of _ res] exI[of _ h'] conjI)
  next
    case False
    have run: "optimize_h (Some ts) opts h = Some (result, h4)" using run1 False by simp
    have pure: "optimize (Some ?ts) opts = ?pure1" using pure1 False by simp
    have d: "deref h4 (arrs h4 result) = optimize (Some ?ts) opts"
      by (simp only: p1(5) pure)
    show ?thesis using run p1(2) p1(3) p1(4) d p1(6)
      by (intro exI[of _ result] exI[of _ h4] conjI)
  qed
qed

subsection \<open>The call leaves the input as it was\<close>

text \<open>
  Claim C9. A call of \<open>optimize\<close> on a list that exists in the store returns; after it the
  input array holds the same references in the same order, no treasure object has changed, and
  every other array that existed before the call is as it was. The route is at an address
  that did not exist before the call, so it is not the input array, also when the input has at
  most one element. The route read from the store is the route of the function on values, and
  it holds the references of the input, each as often.
\<close>

theorem optimize_never_mutates:
  assumes "ts < nextFree h"
  shows "\<exists>res h'. optimize_h (Some ts) opts h = Some (res, h')
     \<and> arrs h' ts = arrs h ts \<and> objs h' = objs h
     \<and> (\<forall>a<nextFree h. arrs h' a = arrs h a)
     \<and> res \<noteq> ts \<and> nextFree h \<le> res \<and> res < nextFree h'
     \<and> deref h' (arrs h' res) = optimize (Some (deref h (arrs h ts))) opts
     \<and> mset (arrs h' res) = mset (arrs h ts)"
proof -
  obtain res h' where r: "optimize_h (Some ts) opts h = Some (res, h')"
      "frame h h'" "nextFree h \<le> res" "res < nextFree h'"
      "deref h' (arrs h' res) = optimize (Some (deref h (arrs h ts))) opts"
      "mset (arrs h' res) = mset (arrs h ts)"
    using optimize_h_ok[OF assms, of opts] by blast
  have o: "objs h' = objs h" and a: "\<forall>a<nextFree h. arrs h' a = arrs h a"
    using r(2) by (simp_all add: frame_def)
  have i: "arrs h' ts = arrs h ts" using a assms by simp
  have n: "res \<noteq> ts" using r(3) assms by simp
  show ?thesis using r(1) i o a n r(3) r(4) r(5) r(6)
    by (intro exI[of _ res] exI[of _ h'] conjI)
qed

theorem optimize_never_mutates_witness:
  "0 < nextFree \<lparr>objs = (\<lambda>r. if r = 0 then mkTreasure 1 367 0 0
                             else if r = 1 then mkTreasure 2 371 10 0 else mkTreasure 3 371 5 0),
                 arrs = (\<lambda>a. if a = 0 then [0, 1, 2] else []), nextFree = 1\<rparr>
   \<and> (\<exists>res h'. optimize_h (Some 0)
                  \<lparr>useMapGrouping = None, use2Opt = Some True, startTreasure = None\<rparr>
                  \<lparr>objs = (\<lambda>r. if r = 0 then mkTreasure 1 367 0 0
                             else if r = 1 then mkTreasure 2 371 10 0 else mkTreasure 3 371 5 0),
                   arrs = (\<lambda>a. if a = 0 then [0, 1, 2] else []), nextFree = 1\<rparr> = Some (res, h')
        \<and> arrs h' 0 = [0, 1, 2]
        \<and> map (objs h') [0, 1, 2]
            = [mkTreasure 1 367 0 0, mkTreasure 2 371 10 0, mkTreasure 3 371 5 0]
        \<and> res \<noteq> 0
        \<and> mset (arrs h' res) = mset [0, 1, 2]
        \<and> deref h' (arrs h' res)
            = optimize (Some [mkTreasure 1 367 0 0, mkTreasure 2 371 10 0, mkTreasure 3 371 5 0])
                \<lparr>useMapGrouping = None, use2Opt = Some True, startTreasure = None\<rparr>)"
proof -
  let ?H = "\<lparr>objs = (\<lambda>r. if r = 0 then mkTreasure 1 367 0 0
                             else if r = 1 then mkTreasure 2 371 10 0 else mkTreasure 3 371 5 0),
             arrs = (\<lambda>a. if a = 0 then [0, 1, 2] else []), nextFree = 1\<rparr>"
  let ?O = "\<lparr>useMapGrouping = None, use2Opt = Some True, startTreasure = None\<rparr>"
  have live: "0 < nextFree ?H" by simp
  obtain res h' where r: "optimize_h (Some 0) ?O ?H = Some (res, h')"
      "arrs h' 0 = arrs ?H 0" "objs h' = objs ?H" "res \<noteq> 0"
      "deref h' (arrs h' res) = optimize (Some (deref ?H (arrs ?H 0))) ?O"
      "mset (arrs h' res) = mset (arrs ?H 0)"
    using optimize_never_mutates[OF live, of ?O] by (elim exE conjE)
  have a: "arrs h' 0 = [0, 1, 2]" using r(2) by simp
  have o: "map (objs h') [0, 1, 2]
            = [mkTreasure 1 367 0 0, mkTreasure 2 371 10 0, mkTreasure 3 371 5 0]"
    using r(3) by simp
  have m: "mset (arrs h' res) = mset [0, 1, 2]" using r(6) by simp
  have d: "deref h' (arrs h' res)
            = optimize (Some [mkTreasure 1 367 0 0, mkTreasure 2 371 10 0, mkTreasure 3 371 5 0]) ?O"
    using r(5) by (simp add: deref_def)
  show ?thesis using live r(1) a o r(4) m d
    by (intro conjI exI[of _ res] exI[of _ h'])
qed

end
